theory Spec2Isabelle
  imports Complex_Main "HOL-Library.Sublist" "HOL-Library.Char_ord"
begin

section \<open>Regular expressions as used by the video ID resolver\<close>

text \<open>
  The resolver of \<^verbatim>\<open>app.py\<close> relies on Python's \<^verbatim>\<open>re\<close> module. The fragment of the
  pattern language that its three patterns use is embedded as a datatype, and the
  backtracking matcher of \<^verbatim>\<open>re\<close> as a function that returns, for a start position, every
  way the pattern can match there, in the order in which backtracking tries them.

  A Python \<^verbatim>\<open>str\<close> is modelled by its UTF-8 bytes. All three patterns mention ASCII
  characters only, a byte of a multi-byte character is never a line feed and never in an
  ASCII class, and a string whose characters are all ASCII has as many bytes as characters,
  so matching and the test \<^verbatim>\<open>len(url_or_id) == 11 and re.match(...)\<close> agree on both views.
\<close>

datatype regex =
    REps
  | RLit char
  | RSet "(char \<times> char) list"
  | RAny
  | RBol
  | REol
  | RCat regex regex
  | RAlt regex regex
  | RStar regex
  | RGroup regex

text \<open>A character set \<^verbatim>\<open>[...]\<close> is a list of inclusive ranges; a single character is a
  range of one.\<close>

definition in_set :: "(char \<times> char) list \<Rightarrow> char \<Rightarrow> bool" where
  "in_set rs c = list_ex (\<lambda>r. fst r \<le> c \<and> c \<le> snd r) rs"

text \<open>A match state is the text of capture group 1 so far (\<open>None\<close> while the group has
  not taken part) and the position reached in the subject string.\<close>

type_synonym mstate = "string option \<times> nat"

text \<open>Greedy repetition: one more iteration is tried before stopping. An iteration that
  consumes nothing is abandoned, so the number of iterations is bounded by the number of
  characters left, which is the fuel the matcher passes.\<close>

primrec star_iter :: "(string option \<Rightarrow> nat \<Rightarrow> mstate list) \<Rightarrow> nat \<Rightarrow> string option \<Rightarrow> nat \<Rightarrow> mstate list" where
  "star_iter f 0 c i = [(c, i)]"
| "star_iter f (Suc n) c i =
     concat (map (\<lambda>st. if i < snd st then star_iter f n (fst st) (snd st) else []) (f c i))
       @ [(c, i)]"

primrec rmatch :: "regex \<Rightarrow> string \<Rightarrow> string option \<Rightarrow> nat \<Rightarrow> mstate list" where
  "rmatch REps s c i = [(c, i)]"
| "rmatch (RLit x) s c i = (if i < length s \<and> s ! i = x then [(c, Suc i)] else [])"
| "rmatch (RSet rs) s c i = (if i < length s \<and> in_set rs (s ! i) then [(c, Suc i)] else [])"
| "rmatch RAny s c i = (if i < length s \<and> s ! i \<noteq> CHR 0x0A then [(c, Suc i)] else [])"
| "rmatch RBol s c i = (if i = 0 then [(c, i)] else [])"
| "rmatch REol s c i =
     (if i = length s \<or> (Suc i = length s \<and> s ! i = CHR 0x0A) then [(c, i)] else [])"
| "rmatch (RCat a b) s c i =
     concat (map (\<lambda>st. rmatch b s (fst st) (snd st)) (rmatch a s c i))"
| "rmatch (RAlt a b) s c i = rmatch a s c i @ rmatch b s c i"
| "rmatch (RStar a) s c i = star_iter (rmatch a s) (length s - i) c i"
| "rmatch (RGroup a) s c i =
     map (\<lambda>st. (Some (take (snd st - i) (drop i s)), snd st)) (rmatch a s c i)"

text \<open>A literal string, and the quantifier \<^verbatim>\<open>{n}\<close>.\<close>

primrec rstr :: "string \<Rightarrow> regex" where
  "rstr [] = REps"
| "rstr (x # xs) = RCat (RLit x) (rstr xs)"

primrec rrep :: "nat \<Rightarrow> regex \<Rightarrow> regex" where
  "rrep 0 r = REps"
| "rrep (Suc n) r = RCat r (rrep n r)"

text \<open>\<^verbatim>\<open>re.match\<close> tries the pattern at position 0 only; \<^verbatim>\<open>re.search\<close> tries every start
  position from the left and keeps the first success. The match object is reduced to what
  the program reads from it, \<^verbatim>\<open>group(1)\<close>, which is \<open>None\<close> when the group took no part.\<close>

definition first_match :: "mstate list \<Rightarrow> string option option" where
  "first_match ms = (case ms of [] \<Rightarrow> None | st # _ \<Rightarrow> Some (fst st))"

definition re_match :: "regex \<Rightarrow> string \<Rightarrow> string option option" where
  "re_match r s = first_match (rmatch r s None 0)"

definition re_search :: "regex \<Rightarrow> string \<Rightarrow> string option option" where
  "re_search r s = first_match (concat (map (rmatch r s None) [0..<Suc (length s)]))"

section \<open>The video ID resolver\<close>

text \<open>\<^verbatim>\<open>[a-zA-Z0-9_-]\<close>\<close>

definition id_chars :: "(char \<times> char) list" where
  "id_chars = [(CHR ''a'', CHR ''z''), (CHR ''A'', CHR ''Z''), (CHR ''0'', CHR ''9''),
               (CHR ''_'', CHR ''_''), (CHR ''-'', CHR ''-'')]"

text \<open>\<^verbatim>\<open>^[a-zA-Z0-9_-]{11}$\<close>\<close>

definition bare_id_pattern :: regex where
  "bare_id_pattern = RCat RBol (RCat (rrep 11 (RSet id_chars)) REol)"

text \<open>\<^verbatim>\<open>(?:youtube\.com\/watch\?v=|youtu\.be\/|youtube\.com\/embed\/)([a-zA-Z0-9_-]{11})\<close>\<close>

definition url_pattern :: regex where
  "url_pattern =
     RCat (RAlt (rstr ''youtube.com/watch?v='')
            (RAlt (rstr ''youtu.be/'') (rstr ''youtube.com/embed/'')))
          (RGroup (rrep 11 (RSet id_chars)))"

text \<open>\<^verbatim>\<open>youtube\.com\/.*[?&]v=([a-zA-Z0-9_-]{11})\<close>\<close>

definition loose_pattern :: regex where
  "loose_pattern =
     RCat (rstr ''youtube.com/'')
       (RCat (RStar RAny)
         (RCat (RSet [(CHR ''?'', CHR ''?''), (CHR ''&'', CHR ''&'')])
           (RCat (rstr ''v='') (RGroup (rrep 11 (RSet id_chars))))))"

definition patterns :: "regex list" where
  "patterns = [url_pattern, loose_pattern]"

text \<open>The loop over the patterns returns \<^verbatim>\<open>match.group(1)\<close> of the first pattern that is
  found, and falls through to \<^verbatim>\<open>return None\<close>.\<close>

primrec search_patterns :: "regex list \<Rightarrow> string \<Rightarrow> string option" where
  "search_patterns [] s = None"
| "search_patterns (p # ps) s =
     (case re_search p s of Some g \<Rightarrow> g | None \<Rightarrow> search_patterns ps s)"

definition extract_video_id :: "string \<Rightarrow> string option" where
  "extract_video_id url_or_id =
     (if length url_or_id = 11 \<and> re_match bare_id_pattern url_or_id \<noteq> None
      then Some url_or_id
      else search_patterns patterns url_or_id)"

section \<open>The transcript formatter\<close>

text \<open>
  A raw segment is a dictionary with the keys \<^verbatim>\<open>start\<close> and \<^verbatim>\<open>text\<close>. A start offset is
  a Python number: an \<^verbatim>\<open>int\<close>, which is unbounded, or a finite \<^verbatim>\<open>float\<close>, which is
  modelled by the rational it denotes. The field \<open>text'\<close> stands for the key \<^verbatim>\<open>text\<close>.
\<close>

datatype py_num = PyInt int | PyFloat rat

record raw_entry =
  entry_start :: py_num
  entry_text :: string

record formatted_entry =
  time :: py_num
  text' :: string
  formatted_time :: string

text \<open>
  Arithmetic on floats rounds each result to the nearest double, ties to even: a double
  has a significand of 53 bits, so a value \<open>a\<close> with \<open>2\<^sup>e \<le> a < 2\<^sup>e\<^sup>+\<^sup>1\<close> is rounded to a
  multiple of \<open>2\<^sup>e\<^sup>-\<^sup>5\<^sup>2\<close>. Overflow to infinity, subnormal numbers and the sign of zero are
  not modelled.
\<close>

function bit_length :: "int \<Rightarrow> int" where
  "bit_length n = (if n \<le> 0 then 0 else 1 + bit_length (n div 2))"
  by pat_completeness auto
termination
  by (relation "measure nat") auto

declare bit_length.simps [simp del]

definition pow2 :: "int \<Rightarrow> rat" where
  "pow2 e = (if 0 \<le> e then 2 ^ nat e else 1 / 2 ^ nat (- e))"

definition binary_exponent :: "rat \<Rightarrow> int" where
  "binary_exponent a =
     (if 1 \<le> a then bit_length \<lfloor>a\<rfloor> - 1
      else - bit_length (\<lceil>1 / a\<rceil> - 1))"

definition round_half_even :: "rat \<Rightarrow> int" where
  "round_half_even q =
     (let f = \<lfloor>q\<rfloor>; r = q - of_int f
      in if r < 1 / 2 then f else if 1 / 2 < r then f + 1 else if even f then f else f + 1)"

definition round_double :: "rat \<Rightarrow> rat" where
  "round_double x =
     (if x = 0 then 0
      else (let u = pow2 (binary_exponent \<bar>x\<bar> - 52)
            in sgn x * of_int (round_half_even (\<bar>x\<bar> / u)) * u))"

text \<open>Truncation towards zero, as \<^verbatim>\<open>int(x)\<close> does for a float, and C's \<^verbatim>\<open>fmod\<close>, which is
  exact.\<close>

definition py_trunc :: "rat \<Rightarrow> int" where
  "py_trunc x = (if x < 0 then \<lceil>x\<rceil> else \<lfloor>x\<rfloor>)"

definition c_fmod :: "rat \<Rightarrow> rat \<Rightarrow> rat" where
  "c_fmod x y = x - y * of_int (py_trunc (x / y))"

text \<open>
  The floor division and remainder of two floats, as the interpreter computes them for a
  divisor that is not zero: the remainder by \<^verbatim>\<open>fmod\<close>, the quotient from the difference
  by a rounded division, both adjusted when the signs of remainder and divisor differ, and
  the quotient then snapped to a whole number.
\<close>

definition float_divmod :: "rat \<Rightarrow> rat \<Rightarrow> rat \<times> rat" where
  "float_divmod vx wx =
     (let mod0 = c_fmod vx wx;
          div0 = round_double (round_double (vx - mod0) / wx);
          adjust = (mod0 \<noteq> 0 \<and> ((wx < 0) \<noteq> (mod0 < 0)));
          mod1 = (if adjust then round_double (mod0 + wx) else mod0);
          div1 = (if adjust then round_double (div0 - 1) else div0);
          floordiv =
            (if div1 \<noteq> 0
             then (let f = of_int \<lfloor>div1\<rfloor>
                   in if 1 / 2 < round_double (div1 - f) then round_double (f + 1) else f)
             else 0)
      in (floordiv, mod1))"

text \<open>\<^verbatim>\<open>x // y\<close> and \<^verbatim>\<open>x % y\<close> for an \<^verbatim>\<open>int\<close> divisor \<open>y\<close> that is not zero, and \<^verbatim>\<open>int(x)\<close>.
  On an \<^verbatim>\<open>int\<close> both operations are exact; a \<^verbatim>\<open>float\<close> operand makes the divisor a
  float.\<close>

definition py_floordiv :: "py_num \<Rightarrow> int \<Rightarrow> py_num" where
  "py_floordiv x y =
     (case x of PyInt a \<Rightarrow> PyInt (a div y)
              | PyFloat v \<Rightarrow> PyFloat (fst (float_divmod v (of_int y))))"

definition py_mod :: "py_num \<Rightarrow> int \<Rightarrow> py_num" where
  "py_mod x y =
     (case x of PyInt a \<Rightarrow> PyInt (a mod y)
              | PyFloat v \<Rightarrow> PyFloat (snd (float_divmod v (of_int y))))"

definition py_int :: "py_num \<Rightarrow> int" where
  "py_int x = (case x of PyInt a \<Rightarrow> a | PyFloat v \<Rightarrow> py_trunc v)"

text \<open>The format specification \<^verbatim>\<open>02d\<close>: the decimal digits of the absolute value, filled
  with zeros on the left up to a total width of two, the sign counting towards the width.\<close>

definition digit_char :: "nat \<Rightarrow> char" where
  "digit_char d = ''0123456789'' ! d"

fun digits_of :: "nat \<Rightarrow> string" where
  "digits_of n =
     (if n < 10 then [digit_char n] else digits_of (n div 10) @ [digit_char (n mod 10)])"

declare digits_of.simps [simp del]

definition zero_fill :: "nat \<Rightarrow> string \<Rightarrow> string" where
  "zero_fill w ds = replicate (w - length ds) (CHR ''0'') @ ds"

definition format_02d :: "int \<Rightarrow> string" where
  "format_02d z =
     (if z < 0 then CHR ''-'' # zero_fill 1 (digits_of (nat (- z)))
      else zero_fill 2 (digits_of (nat z)))"

definition format_entry :: "raw_entry \<Rightarrow> formatted_entry" where
  "format_entry entry =
     \<lparr>time = entry_start entry,
      text' = entry_text entry,
      formatted_time =
        format_02d (py_int (py_floordiv (entry_start entry) 60)) @ '':'' @
        format_02d (py_int (py_mod (entry_start entry) 60))\<rparr>"

text \<open>The \<^verbatim>\<open>for\<close> loop appends one formatted entry per raw entry to the list built so far.\<close>

fun format_loop :: "formatted_entry list \<Rightarrow> raw_entry list \<Rightarrow> formatted_entry list" where
  "format_loop formatted_transcript [] = formatted_transcript"
| "format_loop formatted_transcript (entry # rest) =
     format_loop (formatted_transcript @ [format_entry entry]) rest"

definition format_transcript :: "raw_entry list \<Rightarrow> formatted_entry list" where
  "format_transcript transcript_list = format_loop [] transcript_list"

section \<open>The transcript fetcher\<close>

text \<open>
  The retrieval dependency and the process environment are the world the fetcher runs in.
  A call of the dependency either returns or raises an \<^verbatim>\<open>Exception\<close>, which is modelled by
  its message \<^verbatim>\<open>str(e)\<close> on the left of a sum. \<open>api_get_transcript\<close> takes the video id and
  the \<^verbatim>\<open>proxies\<close> argument (\<open>None\<close> when the argument is not passed);
  \<open>api_list_transcripts\<close> yields the language codes of the transcripts it lists. Every
  call of the dependency and every \<^verbatim>\<open>print\<close> is recorded in a trace that is threaded
  through the program.
\<close>

datatype event =
    ApiGetTranscript string "(string \<times> string) list option"
  | ApiListTranscripts string
  | Print string

record world =
  environ :: "string \<Rightarrow> string option"
  api_get_transcript :: "string \<Rightarrow> (string \<times> string) list option \<Rightarrow> string + raw_entry list"
  api_list_transcripts :: "string \<Rightarrow> string + string list"

text \<open>\<^verbatim>\<open>sep.join(xs)\<close>\<close>

fun join :: "string \<Rightarrow> string list \<Rightarrow> string" where
  "join sep [] = []"
| "join sep [x] = x"
| "join sep (x # y # ys) = x @ sep @ join sep (y # ys)"

text \<open>
  The direct attempt with its handler. Inside the handler the inner \<^verbatim>\<open>try\<close> block always
  ends in an exception: the one raised by the enumeration, or the one the block raises
  itself once the language codes are joined. The bare \<^verbatim>\<open>except:\<close> around it catches
  either and raises the final exception, built from the video id and the message of the
  direct attempt.
\<close>

definition direct_attempt :: "world \<Rightarrow> string \<Rightarrow> event list \<Rightarrow> (string + formatted_entry list) \<times> event list" where
  "direct_attempt w video_id tr =
     (case api_get_transcript w video_id None of
        Inr transcript_list \<Rightarrow>
          (Inr (format_transcript transcript_list), tr @ [ApiGetTranscript video_id None])
      | Inl e \<Rightarrow>
          (let inner_try :: string + formatted_entry list =
                 (case api_list_transcripts w video_id of
                    Inl e' \<Rightarrow> Inl e'
                  | Inr available_languages \<Rightarrow>
                      Inl (''Could not get transcript. Available languages: '' @
                           join '', '' available_languages))
           in (case inner_try of
                 Inl _ \<Rightarrow> Inl (''No transcript available for video '' @ video_id @ '': '' @ e)
               | Inr r \<Rightarrow> Inr r,
               tr @ [ApiGetTranscript video_id None, ApiListTranscripts video_id])))"

definition get_transcript :: "world \<Rightarrow> string \<Rightarrow> event list \<Rightarrow> (string + formatted_entry list) \<times> event list" where
  "get_transcript w video_id tr =
     (case environ w ''YOUTUBE_PROXY'' of
        None \<Rightarrow> direct_attempt w video_id tr
      | Some proxy \<Rightarrow>
          if proxy = [] then direct_attempt w video_id tr
          else
            (let proxies = [(''http'', ''http://'' @ proxy), (''https'', ''http://'' @ proxy)]
             in case api_get_transcript w video_id (Some proxies) of
                  Inr transcript_list \<Rightarrow>
                    (Inr (format_transcript transcript_list),
                     tr @ [ApiGetTranscript video_id (Some proxies)])
                | Inl e \<Rightarrow>
                    direct_attempt w video_id
                      (tr @ [ApiGetTranscript video_id (Some proxies),
                             Print (''Proxy failed ('' @ proxy @ ''): '' @ e)])))"

section \<open>The request handlers\<close>

text \<open>
  \<^verbatim>\<open>render_template\<close> and \<^verbatim>\<open>jsonify\<close> belong to the web framework; their results are
  modelled by the template or object together with the values handed to it. A handler
  returns the body and the HTTP status, which is 200 where the program returns no status.
\<close>

datatype page =
    ErrorPage string
  | TranscriptPage string "formatted_entry list" string

datatype json_body =
    JsonSuccess string "formatted_entry list" "string option"
  | JsonFailure string

definition watch :: "world \<Rightarrow> string option \<Rightarrow> event list \<Rightarrow> (page \<times> nat) \<times> event list" where
  "watch w video_id_param tr =
     (case video_id_param of
        None \<Rightarrow> ((ErrorPage ''No video ID provided. Please use /watch?v=VIDEO_ID'', 400), tr)
      | Some p \<Rightarrow>
          if p = []
          then ((ErrorPage ''No video ID provided. Please use /watch?v=VIDEO_ID'', 400), tr)
          else
            (case extract_video_id p of
               None \<Rightarrow> ((ErrorPage ''Invalid video ID format'', 400), tr)
             | Some video_id \<Rightarrow>
                 if video_id = []
                 then ((ErrorPage ''Invalid video ID format'', 400), tr)
                 else
                   (case get_transcript w video_id tr of
                      (Inr transcript, tr') \<Rightarrow>
                        ((TranscriptPage video_id transcript
                            (case environ w ''YOUTUBE_PROXY'' of None \<Rightarrow> ''None'' | Some x \<Rightarrow> x),
                          200), tr')
                    | (Inl e, tr') \<Rightarrow> ((ErrorPage e, 500), tr'))))"

definition api_transcript :: "world \<Rightarrow> string \<Rightarrow> event list \<Rightarrow> (json_body \<times> nat) \<times> event list" where
  "api_transcript w video_id tr =
     (case get_transcript w video_id tr of
        (Inr transcript, tr') \<Rightarrow>
          ((JsonSuccess video_id transcript (environ w ''YOUTUBE_PROXY''), 200), tr')
      | (Inl e, tr') \<Rightarrow> ((JsonFailure e, 500), tr'))"

section \<open>Notions of the specification\<close>

text \<open>The allowed characters of a video id, as the specification lists them.\<close>

definition in_range :: "char \<Rightarrow> char \<Rightarrow> char \<Rightarrow> bool" where
  "in_range lo hi c = (lo \<le> c \<and> c \<le> hi)"

definition allowed_char :: "char \<Rightarrow> bool" where
  "allowed_char c =
     (in_range (CHR ''a'') (CHR ''z'') c \<or> in_range (CHR ''A'') (CHR ''Z'') c \<or>
      in_range (CHR ''0'') (CHR ''9'') c \<or> c = CHR ''_'' \<or> c = CHR ''-'')"

text \<open>A text begins with a video id when its first 11 characters exist and are allowed.\<close>

definition starts_with_id :: "string \<Rightarrow> bool" where
  "starts_with_id t = (11 \<le> length t \<and> list_all allowed_char (take 11 t))"

text \<open>The three URL forms of the first pattern family: a text has such a form at its
  beginning when one of the markers is followed by a video id.\<close>

definition url_markers :: "string list" where
  "url_markers = [''youtube.com/watch?v='', ''youtu.be/'', ''youtube.com/embed/'']"

definition url_shape_at :: "string \<Rightarrow> bool" where
  "url_shape_at t = list_ex (\<lambda>m. prefix m t \<and> starts_with_id (drop (length m) t)) url_markers"

definition has_url_shape :: "string \<Rightarrow> bool" where
  "has_url_shape s = list_ex (\<lambda>i. url_shape_at (drop i s)) [0..<Suc (length s)]"

text \<open>The looser form: \<^verbatim>\<open>youtube.com/\<close> followed, later on the same line, by a query
  parameter \<^verbatim>\<open>v=\<close> (introduced by \<^verbatim>\<open>?\<close> or \<^verbatim>\<open>&\<close>) whose value begins with a video id.
  \<open>line_len\<close> is the length of the first line of a text.\<close>

definition param_at :: "string \<Rightarrow> bool" where
  "param_at t = ((prefix ''?v='' t \<or> prefix ''&v='' t) \<and> starts_with_id (drop 3 t))"

definition line_len :: "string \<Rightarrow> nat" where
  "line_len t = length (takeWhile (\<lambda>x. x \<noteq> CHR 0x0A) t)"

definition has_loose_shape :: "string \<Rightarrow> bool" where
  "has_loose_shape s =
     list_ex (\<lambda>i. prefix ''youtube.com/'' (drop i s) \<and>
                list_ex (\<lambda>j. param_at (drop j s))
                  [12 + i..<Suc (12 + i + line_len (drop (12 + i) s))])
       [0..<Suc (length s)]"

text \<open>The looser form begins at position \<open>i\<close> of \<open>s\<close>.\<close>

definition loose_shape_at :: "string \<Rightarrow> nat \<Rightarrow> bool" where
  "loose_shape_at s i =
     (prefix ''youtube.com/'' (drop i s) \<and>
      list_ex (\<lambda>j. param_at (drop j s))
        [12 + i..<Suc (12 + i + line_len (drop (12 + i) s))])"





text \<open>The part of the looser pattern after \<^verbatim>\<open>.*\<close>, named for the proofs.\<close>

definition param_pattern :: regex where
  "param_pattern = RCat (RSet [(CHR ''?'', CHR ''?''), (CHR ''&'', CHR ''&'')])
       (RCat (rstr ''v='') (RGroup (rrep 11 (RSet id_chars))))"

text \<open>Notions for the fetcher: the proxy settings that route both HTTP and HTTPS through
  one proxy address; a detail message mentions a code when the code occurs in it; the
  video id an event hands to the dependency; and the events that are proxy attempts.\<close>

definition proxies_for :: "string \<Rightarrow> (string \<times> string) list" where
  "proxies_for address = [(''http'', ''http://'' @ address), (''https'', ''http://'' @ address)]"

definition mentions :: "string \<Rightarrow> string \<Rightarrow> bool" where
  "mentions detail code = list_ex (\<lambda>i. prefix code (drop i detail)) [0..<Suc (length detail)]"

fun event_video_id :: "event \<Rightarrow> string option" where
  "event_video_id (ApiGetTranscript v px) = Some v"
| "event_video_id (ApiListTranscripts v) = Some v"
| "event_video_id (Print msg) = None"

definition api_video_ids :: "event list \<Rightarrow> string list" where
  "api_video_ids tr = List.map_filter event_video_id tr"

fun is_proxy_attempt :: "event \<Rightarrow> bool" where
  "is_proxy_attempt (ApiGetTranscript v (Some px)) = True"
| "is_proxy_attempt ev = False"

text \<open>Two worlds for the scenarios of the specification. In both a proxy is configured
  and the attempt through it fails. In the first the direct attempt fails as well and the
  enumeration lists Spanish and French; in the second the direct attempt succeeds.\<close>

definition world_all_fail :: world where
  "world_all_fail =
     \<lparr>environ = (\<lambda>name. if name = ''YOUTUBE_PROXY'' then Some ''10.0.0.1:3128'' else None),
      api_get_transcript = (\<lambda>v px. case px of None \<Rightarrow> Inl ''direct fetch failed''
                                            | Some _ \<Rightarrow> Inl ''proxy down''),
      api_list_transcripts = (\<lambda>v. Inr [''es'', ''fr''])\<rparr>"

definition world_direct_ok :: world where
  "world_direct_ok =
     \<lparr>environ = (\<lambda>name. if name = ''YOUTUBE_PROXY'' then Some ''10.0.0.1:3128'' else None),
      api_get_transcript = (\<lambda>v px. case px of
          None \<Rightarrow> Inr [\<lparr>entry_start = PyInt 0, entry_text = ''a''\<rparr>,
                  \<lparr>entry_start = PyInt 75, entry_text = ''b''\<rparr>]
        | Some _ \<Rightarrow> Inl ''proxy down''),
      api_list_transcripts = (\<lambda>v. Inr [''en''])\<rparr>"

section \<open>Properties of the matcher\<close>

lemma in_set_id_chars: "in_set id_chars c = allowed_char c"
  by (auto simp: in_set_def id_chars_def allowed_char_def in_range_def)

lemma rmatch_rstr:
  "rmatch (rstr w) s c i = (if prefix w (drop i s) then [(c, length w + i)] else [])"
proof (induction w arbitrary: i)
  case Nil
  show ?case by simp
next
  case (Cons x xs)
  show ?case
  proof (cases "i < length s")
    case True
    then have d: "drop i s = s ! i # drop (Suc i) s"
      by (simp add: Cons_nth_drop_Suc)
    show ?thesis using True by (simp add: d Cons.IH)
  next
    case False
    then show ?thesis by simp
  qed
qed

lemma rmatch_rrep_set:
  "rmatch (rrep n (RSet K)) s c i =
     (if (n = 0 \<or> i + n \<le> length s) \<and> list_all (in_set K) (take n (drop i s))
      then [(c, n + i)] else [])"
proof (induction n arbitrary: i)
  case 0
  show ?case by simp
next
  case (Suc n)
  show ?case
  proof (cases "i < length s")
    case True
    then have d: "drop i s = s ! i # drop (Suc i) s"
      by (simp add: Cons_nth_drop_Suc)
    show ?thesis using True by (auto simp add: d Suc.IH)
  next
    case False
    then show ?thesis by simp
  qed
qed

lemma rmatch_id_group:
  "rmatch (RGroup (rrep 11 (RSet id_chars))) s c i =
     (if starts_with_id (drop i s) then [(Some (take 11 (drop i s)), 11 + i)] else [])"
  by (auto simp: rmatch_rrep_set starts_with_id_def in_set_id_chars [abs_def])

lemma bare_id_match:
  "re_match bare_id_pattern s = None \<longleftrightarrow>
     \<not> (starts_with_id s \<and> (length s = 11 \<or> (length s = 12 \<and> s ! 11 = CHR 0x0A)))"
  by (auto simp: re_match_def bare_id_pattern_def first_match_def rmatch_rrep_set
      starts_with_id_def in_set_id_chars [abs_def] split: list.splits)

lemma star_iter_any:
  assumes f: "\<And>c i. f c i = (if i < length s \<and> s ! i \<noteq> CHR 0x0A then [(c, Suc i)] else [])"
  shows "i \<le> length s \<Longrightarrow>
   star_iter f k c i =
     map (\<lambda>j. (c, j))
       (rev [i..<Suc (i + min k (length (takeWhile (\<lambda>x. x \<noteq> CHR 0x0A) (drop i s))))])"
proof (induction k arbitrary: i)
  case 0
  show ?case by simp
next
  case (Suc k)
  show ?case
  proof (cases "i < length s \<and> s ! i \<noteq> CHR 0x0A")
    case True
    then have d: "drop i s = s ! i # drop (Suc i) s"
      by (simp add: Cons_nth_drop_Suc)
    have le: "Suc i \<le> length s" using True by simp
    have e1: "star_iter f (Suc k) c i = star_iter f k c (Suc i) @ [(c, i)]"
      using True by (simp add: f [of c i])
    have e2: "length (takeWhile (\<lambda>x. x \<noteq> CHR 0x0A) (drop i s)) =
        Suc (length (takeWhile (\<lambda>x. x \<noteq> CHR 0x0A) (drop (Suc i) s)))"
      using True by (simp add: d)
    show ?thesis
      unfolding e1 e2 Suc.IH [OF le] by (simp add: upt_conv_Cons del: upt_Suc)
  next
    case False
    have fe: "f c i = []"
      using False by (simp add: f)
    have e1: "star_iter f (Suc k) c i = [(c, i)]"
      by (simp add: fe)
    have e2: "length (takeWhile (\<lambda>x. x \<noteq> CHR 0x0A) (drop i s)) = 0"
    proof (cases "i < length s")
      case True
      then have "drop i s = s ! i # drop (Suc i) s"
        by (simp add: Cons_nth_drop_Suc)
      then show ?thesis using True False by simp
    next
      case False
      then show ?thesis by simp
    qed
    show ?thesis
      unfolding e1 e2 by simp
  qed
qed

lemma takeWhile_length_le: "length (takeWhile P (drop i s)) \<le> length s - i"
  by (metis length_drop length_takeWhile_le)

lemma rmatch_star_any:
  "i \<le> length s \<Longrightarrow>
   rmatch (RStar RAny) s c i =
     map (\<lambda>j. (c, j))
       (rev [i..<Suc (i + length (takeWhile (\<lambda>x. x \<noteq> CHR 0x0A) (drop i s)))])"
  using takeWhile_length_le [of "\<lambda>x. x \<noteq> CHR 0x0A" i s]
  by (simp add: star_iter_any [where s = s and f = "rmatch RAny s"] min_def del: upt_Suc)

lemma first_match_None: "first_match ms = None \<longleftrightarrow> ms = []"
  by (cases ms) (simp_all add: first_match_def)

lemma first_match_concat_None:
  "first_match (concat (map f [0..<n])) = None \<longleftrightarrow> (\<forall>i<n. f i = [])"
proof -
  have "first_match (concat (map f [0..<n])) = None \<longleftrightarrow> concat (map f [0..<n]) = []"
    by (rule first_match_None)
  also have "\<dots> \<longleftrightarrow> (\<forall>i<n. f i = [])"
    by auto
  finally show ?thesis .
qed

lemma first_match_concat_Some:
  assumes "i0 < n" and "\<forall>i<i0. f i = []" and "f i0 = x # xs"
  shows "first_match (concat (map f [0..<n])) = Some (fst x)"
proof -
  have "[0..<n] = [0..<i0] @ [i0..<n]"
    using upt_add_eq_append [of 0 i0 "n - i0"] assms(1) by simp
  also have "[i0..<n] = i0 # [Suc i0..<n]"
    using assms(1) by (simp add: upt_conv_Cons)
  finally have split: "[0..<n] = [0..<i0] @ i0 # [Suc i0..<n]" .
  have z: "concat (map f [0..<i0]) = []"
    using assms(2) by auto
  show ?thesis
    unfolding split by (simp add: z assms(3) first_match_def)
qed

lemma first_match_concat_least:
  assumes "first_match (concat (map f [0..<n])) = Some g"
  shows "\<exists>i0 x xs. i0 < n \<and> (\<forall>i<i0. f i = []) \<and> f i0 = x # xs \<and> g = fst x"
proof -
  have ex: "\<exists>i<n. f i \<noteq> []"
    using assms first_match_concat_None [of f n] by auto
  define i0 where "i0 = (LEAST i. i < n \<and> f i \<noteq> [])"
  have a: "i0 < n \<and> f i0 \<noteq> []"
    unfolding i0_def by (rule LeastI_ex) (use ex in blast)
  have b: "\<forall>i<i0. f i = []"
  proof (intro allI impI)
    fix i assume "i < i0"
    then have "\<not> (i < n \<and> f i \<noteq> [])"
      unfolding i0_def by (rule not_less_Least)
    then show "f i = []" using \<open>i < i0\<close> a by auto
  qed
  obtain x xs where c: "f i0 = x # xs"
    using a by (cases "f i0") auto
  have "first_match (concat (map f [0..<n])) = Some (fst x)"
    using a b c by (intro first_match_concat_Some) auto
  then have "g = fst x"
    using assms by simp
  with a b c show ?thesis by blast
qed

lemma rmatch_cat_alt:
  "rmatch (RCat (RAlt a b) g) s c i = rmatch (RCat a g) s c i @ rmatch (RCat b g) s c i"
  by simp

lemma rmatch_marker_id:
  "rmatch (RCat (rstr w) (RGroup (rrep 11 (RSet id_chars)))) s c i =
     (if prefix w (drop i s) \<and> starts_with_id (drop (length w) (drop i s))
      then [(Some (take 11 (drop (length w) (drop i s))), 11 + (length w + i))]
      else [])"
  by (simp add: rmatch_rstr rmatch_id_group del: rstr.simps rmatch.simps(10))

lemma concat_if_Nil:
  "concat (map (\<lambda>m. if P m then [g m] else []) ms) = [] \<longleftrightarrow> \<not> list_ex P ms"
  by (induction ms) auto

lemma rmatch_url_pattern:
  "rmatch url_pattern s c i =
     concat (map (\<lambda>m. if prefix m (drop i s) \<and> starts_with_id (drop (length m) (drop i s))
                      then [(Some (take 11 (drop (length m) (drop i s))), 11 + (length m + i))]
                      else []) url_markers)"
  by (simp only: url_pattern_def url_markers_def rmatch_cat_alt rmatch_marker_id
      list.map concat.simps append_Nil2)

lemma rmatch_url_pattern_Nil:
  "rmatch url_pattern s c i = [] \<longleftrightarrow> \<not> url_shape_at (drop i s)"
  by (simp only: rmatch_url_pattern concat_if_Nil url_shape_at_def)

lemma re_search_url_None: "re_search url_pattern s = None \<longleftrightarrow> \<not> has_url_shape s"
  by (auto simp add: re_search_def first_match_concat_None rmatch_url_pattern_Nil
      has_url_shape_def list_ex_iff simp del: upt_Suc)

lemma rmatch_cat_str:
  "rmatch (RCat (rstr w) r) s c i = (if prefix w (drop i s) then rmatch r s c (length w + i) else [])"
  by (simp add: rmatch_rstr del: rstr.simps)

lemma rmatch_cat_set:
  "rmatch (RCat (RSet K) r) s c i =
     (if i < length s \<and> in_set K (s ! i) then rmatch r s c (Suc i) else [])"
  by auto

lemma loose_pattern_eq:
  "loose_pattern = RCat (rstr ''youtube.com/'') (RCat (RStar RAny) param_pattern)"
  by (simp only: loose_pattern_def param_pattern_def)

lemma rmatch_param:
  "rmatch param_pattern s c j =
     (if param_at (drop j s) then [(Some (take 11 (drop 3 (drop j s))), 14 + j)] else [])"
proof (cases "j < length s")
  case True
  then have d: "drop j s = s ! j # drop (Suc j) s"
    by (simp add: Cons_nth_drop_Suc)
  have m: "rmatch (RCat (rstr ''v='') (RGroup (rrep 11 (RSet id_chars)))) s c (Suc j) =
     (if prefix ''v='' (drop (Suc j) s) \<and> starts_with_id (drop 2 (drop (Suc j) s))
      then [(Some (take 11 (drop 2 (drop (Suc j) s))), 14 + j)] else [])"
    by (simp only: rmatch_marker_id) simp
  have s: "in_set [(CHR ''?'', CHR ''?''), (CHR ''&'', CHR ''&'')] x \<longleftrightarrow> x = CHR ''?'' \<or> x = CHR ''&''" for x
    by (auto simp: in_set_def)
  have "rmatch param_pattern s c j =
     (if s ! j = CHR ''?'' \<or> s ! j = CHR ''&''
      then rmatch (RCat (rstr ''v='') (RGroup (rrep 11 (RSet id_chars)))) s c (Suc j) else [])"
    using True by (simp only: param_pattern_def rmatch_cat_set s if_True simp_thms)
  also have "\<dots> = (if param_at (drop j s) then [(Some (take 11 (drop 3 (drop j s))), 14 + j)] else [])"
    unfolding m by (auto simp add: param_at_def d)
  finally show ?thesis .
next
  case False
  then have "drop j s = []" by simp
  then have "\<not> param_at (drop j s)" by (simp add: param_at_def)
  then show ?thesis using False
    by (simp only: param_pattern_def rmatch_cat_set if_False simp_thms)
qed

lemma line_len_le: "i \<le> length s \<Longrightarrow> i + line_len (drop i s) \<le> length s"
  using length_takeWhile_le [of "\<lambda>x. x \<noteq> CHR 0x0A" "drop i s"] by (auto simp: line_len_def)

lemma rmatch_loose_pattern:
  "rmatch loose_pattern s c i =
     (if prefix ''youtube.com/'' (drop i s)
      then concat (map (\<lambda>j. if param_at (drop j s)
                              then [(Some (take 11 (drop 3 (drop j s))), 14 + j)] else [])
                    (rev [12 + i..<Suc (12 + i + line_len (drop (12 + i) s))]))
      else [])"
proof (cases "prefix ''youtube.com/'' (drop i s)")
  case True
  then have "length ''youtube.com/'' \<le> length (drop i s)"
    by (rule prefix_length_le)
  then have le: "12 + i \<le> length s" by simp
  have l: "length ''youtube.com/'' = 12" by simp
  have "rmatch loose_pattern s c i = rmatch (RCat (RStar RAny) param_pattern) s c (12 + i)"
    using True by (simp only: loose_pattern_eq rmatch_cat_str if_True l)
  also have "\<dots> = concat (map (\<lambda>st. rmatch param_pattern s (fst st) (snd st))
      (rmatch (RStar RAny) s c (12 + i)))"
    by (rule rmatch.simps(7))
  finally show ?thesis
    using True
    by (simp only: rmatch_star_any [OF le] rmatch_param line_len_def map_map o_def
        fst_conv snd_conv if_True)
next
  case False
  then show ?thesis
    by (simp only: loose_pattern_eq rmatch_cat_str if_False)
qed

lemma param_at_less: "param_at (drop j s) \<Longrightarrow> j < length s"
  by (cases "j < length s") (auto simp: param_at_def)

lemma rmatch_loose_sound:
  assumes "x \<in> set (rmatch loose_pattern s c i)"
  shows "prefix ''youtube.com/'' (drop i s) \<and>
     (\<exists>j. 12 + i \<le> j \<and> j \<le> 12 + i + line_len (drop (12 + i) s) \<and>
          param_at (drop j s) \<and> fst x = Some (take 11 (drop 3 (drop j s))))"
proof -
  have p: "prefix ''youtube.com/'' (drop i s)"
    using assms by (cases "prefix ''youtube.com/'' (drop i s)") (simp_all only: rmatch_loose_pattern if_False if_True list.set empty_iff)
  then obtain j where "j \<in> set (rev [12 + i..<Suc (12 + i + line_len (drop (12 + i) s))])"
    and "x \<in> set (if param_at (drop j s) then [(Some (take 11 (drop 3 (drop j s))), 14 + j)] else [])"
    using assms by (auto simp only: rmatch_loose_pattern if_True set_concat set_map)
  then have "12 + i \<le> j \<and> j \<le> 12 + i + line_len (drop (12 + i) s) \<and>
      param_at (drop j s) \<and> fst x = Some (take 11 (drop 3 (drop j s)))"
    by (cases "param_at (drop j s)") (auto simp del: upt_Suc)
  with p show ?thesis by blast
qed

lemma re_search_loose_None:
  assumes "\<not> has_loose_shape s"
  shows "re_search loose_pattern s = None"
proof -
  have "rmatch loose_pattern s None i = []" for i
  proof (rule ccontr)
    assume "rmatch loose_pattern s None i \<noteq> []"
    then obtain x where "x \<in> set (rmatch loose_pattern s None i)"
      by (cases "rmatch loose_pattern s None i") auto
    from rmatch_loose_sound [OF this] obtain j where
      p: "prefix ''youtube.com/'' (drop i s)"
      and j: "12 + i \<le> j" "j \<le> 12 + i + line_len (drop (12 + i) s)" "param_at (drop j s)"
      by blast
    have "i \<le> length s"
      using p by (cases "i \<le> length s") auto
    then have "has_loose_shape s"
      using p j unfolding has_loose_shape_def list_ex_iff
      by (intro bexI [of _ i] conjI bexI [of _ j]) (auto simp del: upt_Suc)
    with assms show False by simp
  qed
  then show ?thesis
    by (simp add: re_search_def first_match_concat_None del: upt_Suc)
qed

lemma extract_by_url:
  "length s \<noteq> 11 \<Longrightarrow> re_search url_pattern s = Some g \<Longrightarrow> extract_video_id s = g"
  by (simp add: extract_video_id_def patterns_def)

lemma extract_by_loose:
  "length s \<noteq> 11 \<Longrightarrow> re_search url_pattern s = None \<Longrightarrow> re_search loose_pattern s = Some g
     \<Longrightarrow> extract_video_id s = g"
  by (simp add: extract_video_id_def patterns_def)

lemma starts_with_id_run:
  "11 \<le> length cs \<Longrightarrow> list_all allowed_char cs \<Longrightarrow> starts_with_id (cs @ post)"
  by (auto simp: starts_with_id_def list_all_iff dest: in_set_takeD)

lemma concat_if_first:
  "m \<in> set ms \<Longrightarrow> P m \<Longrightarrow> (\<forall>m'\<in>set ms. P m' \<longrightarrow> m' = m) \<Longrightarrow>
     \<exists>xs. concat (map (\<lambda>m. if P m then [g m] else []) ms) = g m # xs"
proof (induction ms)
  case Nil
  then show ?case by simp
next
  case (Cons a ms)
  show ?case
  proof (cases "a = m")
    case True
    have "concat (map (\<lambda>m. if P m then [g m] else []) (a # ms)) =
        g m # concat (map (\<lambda>m. if P m then [g m] else []) ms)"
      using True Cons.prems(2) by simp
    then show ?thesis ..
  next
    case False
    have min: "m \<in> set ms"
      using Cons.prems(1) False by simp
    have "P a \<longrightarrow> a = m"
      using Cons.prems(3) by simp
    then have np: "\<not> P a"
      using False by blast
    have "\<forall>m'\<in>set ms. P m' \<longrightarrow> m' = m"
      using Cons.prems(3) by simp
    from Cons.IH [OF min Cons.prems(2) this] obtain xs
      where "concat (map (\<lambda>m. if P m then [g m] else []) ms) = g m # xs" ..
    then show ?thesis
      using np by simp
  qed
qed

lemma drop_length_append: "drop (length xs) (xs @ ys) = ys"
  by simp

lemma url_marker_unique:
  assumes "m \<in> set url_markers" and "m' \<in> set url_markers"
    and "prefix m t" and "prefix m' t"
  shows "m' = m"
proof -
  have p: "prefix m m' \<or> prefix m' m"
    using assms(3,4) by (rule prefix_same_cases)
  have a: "m = ''youtube.com/watch?v='' \<or> m = ''youtu.be/'' \<or> m = ''youtube.com/embed/''"
    using assms(1) by (simp add: url_markers_def)
  have b: "m' = ''youtube.com/watch?v='' \<or> m' = ''youtu.be/'' \<or> m' = ''youtube.com/embed/''"
    using assms(2) by (simp add: url_markers_def)
  show ?thesis
    using a b p by (elim disjE; simp)
qed

lemma url_form_extract:
  assumes m: "m \<in> set url_markers"
    and s: "s = pre @ m @ cs @ post"
    and len: "11 < length cs"
    and al: "list_all allowed_char cs"
    and first: "\<forall>i<length pre. \<not> url_shape_at (drop i s)"
  shows "extract_video_id s = Some (take 11 cs)"
proof -
  define t where "t = drop (length pre) s"
  have d: "t = m @ cs @ post"
    by (simp add: s t_def)
  have sw: "starts_with_id (cs @ post)"
    using len al by (simp add: starts_with_id_run)
  have pm: "prefix m t \<and> starts_with_id (drop (length m) t)"
    using sw by (simp add: d)
  have un: "\<forall>m'\<in>set url_markers.
      prefix m' t \<and> starts_with_id (drop (length m') t) \<longrightarrow> m' = m"
    using m pm by (blast intro: url_marker_unique)
  have "\<exists>xs. rmatch url_pattern s None (length pre) =
      (Some (take 11 (drop (length m) t)), 11 + (length m + length pre)) # xs"
    unfolding rmatch_url_pattern t_def [symmetric]
    using m pm un by (rule concat_if_first)
  then obtain xs where x: "rmatch url_pattern s None (length pre) =
      (Some (take 11 (drop (length m) t)), 11 + (length m + length pre)) # xs"
    by blast
  have g: "take 11 (drop (length m) t) = take 11 cs"
    using len by (simp add: d)
  have "length pre < Suc (length s)"
    by (simp add: s)
  moreover have "\<forall>i<length pre. rmatch url_pattern s None i = []"
    using first by (simp add: rmatch_url_pattern_Nil)
  ultimately have "re_search url_pattern s =
      Some (fst (Some (take 11 (drop (length m) t)), 11 + (length m + length pre)))"
    unfolding re_search_def using x by (rule first_match_concat_Some)
  then have "re_search url_pattern s = Some (Some (take 11 cs))"
    by (simp only: fst_conv g)
  moreover have "length s \<noteq> 11"
    using len by (simp add: s)
  ultimately show ?thesis
    by (simp add: extract_by_url)
qed

lemma line_len_append:
  "CHR 0x0A \<notin> set mid \<Longrightarrow> length mid \<le> line_len (mid @ r)"
proof -
  assume "CHR 0x0A \<notin> set mid"
  then have "takeWhile (\<lambda>x. x \<noteq> CHR 0x0A) (mid @ r) = mid @ takeWhile (\<lambda>x. x \<noteq> CHR 0x0A) r"
    by (intro takeWhile_append2) auto
  then show ?thesis
    by (simp add: line_len_def)
qed

lemma all_less_list_all: "(\<forall>i<n. P i) \<longleftrightarrow> list_all P [0..<n]"
  by (auto simp: list_all_iff)

lemma all_le_list_all: "(\<forall>i\<le>n. P i) \<longleftrightarrow> list_all P [0..<Suc n]"
  by (auto simp: list_all_iff less_Suc_eq_le simp del: upt_Suc)

lemma starts_with_id_take:
  "starts_with_id t \<Longrightarrow> length (take 11 t) = 11 \<and> list_all allowed_char (take 11 t)"
  by (simp add: starts_with_id_def)

lemma rmatch_url_sound:
  assumes "x \<in> set (rmatch url_pattern s c i)"
  shows "\<exists>t. starts_with_id t \<and> fst x = Some (take 11 t)"
proof -
  from assms obtain m where
    "x \<in> set (if prefix m (drop i s) \<and> starts_with_id (drop (length m) (drop i s))
               then [(Some (take 11 (drop (length m) (drop i s))), 11 + (length m + i))]
               else [])"
    unfolding rmatch_url_pattern by auto
  then have "starts_with_id (drop (length m) (drop i s)) \<and>
      fst x = Some (take 11 (drop (length m) (drop i s)))"
    by (cases "prefix m (drop i s) \<and> starts_with_id (drop (length m) (drop i s))") simp_all
  then show ?thesis by blast
qed

lemma re_search_sound:
  assumes "re_search r s = Some g"
  shows "\<exists>i x. x \<in> set (rmatch r s None i) \<and> g = fst x"
proof -
  from assms obtain i0 x xs where "rmatch r s None i0 = x # xs" and "g = fst x"
    unfolding re_search_def by (blast dest: first_match_concat_least)
  then have "x \<in> set (rmatch r s None i0) \<and> g = fst x"
    by simp
  then show ?thesis by blast
qed

lemma search_patterns_sound:
  assumes "search_patterns patterns s = Some v"
  shows "\<exists>t. starts_with_id t \<and> v = take 11 t"
proof (cases "re_search url_pattern s")
  case (Some g)
  then have "g = Some v"
    using assms by (simp add: patterns_def)
  with Some re_search_sound [of url_pattern s g] rmatch_url_sound show ?thesis
    by fastforce
next
  case None
  then obtain g where g: "re_search loose_pattern s = Some g" and "g = Some v"
    using assms by (cases "re_search loose_pattern s") (simp_all add: patterns_def)
  from re_search_sound [OF g] obtain i x where
    "x \<in> set (rmatch loose_pattern s None i)" and "g = fst x"
    by blast
  with rmatch_loose_sound [of x s None i] \<open>g = Some v\<close> obtain j where
    "param_at (drop j s)" and "v = take 11 (drop 3 (drop j s))"
    by auto
  then show ?thesis
    unfolding param_at_def by blast
qed

lemma extract_video_id_sound:
  assumes "extract_video_id s = Some v"
  shows "length v = 11 \<and> list_all allowed_char v"
proof (cases "length s = 11 \<and> re_match bare_id_pattern s \<noteq> None")
  case True
  then have "v = s" and "starts_with_id s"
    using assms by (simp_all add: extract_video_id_def bare_id_match)
  then show ?thesis
    using True by (simp add: starts_with_id_def)
next
  case False
  then have "search_patterns patterns s = Some v"
    using assms by (simp only: extract_video_id_def if_False)
  from search_patterns_sound [OF this] show ?thesis
    using starts_with_id_take by blast
qed

lemma extract_video_id_empty: "extract_video_id [] = None"
  by code_simp

lemma rmatch_loose_Nil:
  "rmatch loose_pattern s c i = [] \<longleftrightarrow>
     \<not> (prefix ''youtube.com/'' (drop i s) \<and>
        list_ex (\<lambda>j. param_at (drop j s)) [12 + i..<Suc (12 + i + line_len (drop (12 + i) s))])"
proof (cases "prefix ''youtube.com/'' (drop i s)")
  case True
  have "list_ex P (rev xs) = list_ex P xs" for P and xs :: "nat list"
    by (simp add: list_ex_iff)
  then show ?thesis
    using True by (simp only: rmatch_loose_pattern if_True concat_if_Nil simp_thms)
next
  case False
  then show ?thesis
    by (simp only: rmatch_loose_pattern if_False simp_thms)
qed

lemma re_search_loose_None_iff:
  "re_search loose_pattern s = None \<longleftrightarrow> \<not> has_loose_shape s"
  by (auto simp add: re_search_def first_match_concat_None rmatch_loose_Nil
      has_loose_shape_def list_ex_iff simp del: upt_Suc)

lemma re_search_url_Some:
  assumes "re_search url_pattern s = Some g"
  shows "\<exists>v. g = Some v"
proof -
  from re_search_sound [OF assms] obtain i x where
    "x \<in> set (rmatch url_pattern s None i)" and "g = fst x"
    by blast
  with rmatch_url_sound [of x s None i] show ?thesis
    by auto
qed

lemma re_search_loose_Some:
  assumes "re_search loose_pattern s = Some g"
  shows "\<exists>v. g = Some v"
proof -
  from re_search_sound [OF assms] obtain i x where
    "x \<in> set (rmatch loose_pattern s None i)" and "g = fst x"
    by blast
  with rmatch_loose_sound [of x s None i] show ?thesis
    by auto
qed

lemma search_patterns_found:
  assumes "has_url_shape s \<or> has_loose_shape s"
  shows "\<exists>v. search_patterns patterns s = Some v"
proof (cases "re_search url_pattern s")
  case (Some g)
  with re_search_url_Some [OF Some] show ?thesis
    by (auto simp add: patterns_def)
next
  case None
  then have "has_loose_shape s"
    using assms by (simp add: re_search_url_None)
  then obtain g where g: "re_search loose_pattern s = Some g"
    using re_search_loose_None_iff [of s] by auto
  with re_search_loose_Some [OF g] None show ?thesis
    by (auto simp add: patterns_def)
qed

lemma extract_video_id_found:
  assumes "has_url_shape s \<or> has_loose_shape s"
  shows "\<exists>v. extract_video_id s = Some v \<and> length v = 11 \<and> list_all allowed_char v"
proof -
  from search_patterns_found [OF assms] obtain v' where "search_patterns patterns s = Some v'"
    by blast
  then have "\<exists>v. extract_video_id s = Some v"
    by (simp add: extract_video_id_def)
  then show ?thesis
    using extract_video_id_sound by blast
qed

lemma url_form_has_shape:
  assumes "m \<in> set url_markers" and "s = pre @ m @ cs @ post"
    and "11 < length cs" and "list_all allowed_char cs"
  shows "has_url_shape s"
proof -
  have d: "drop (length pre) s = m @ cs @ post"
    by (simp add: assms(2))
  have "starts_with_id (cs @ post)"
    using assms(3,4) by (simp add: starts_with_id_run)
  then have "prefix m (m @ cs @ post) \<and> starts_with_id (drop (length m) (m @ cs @ post))"
    by simp
  then have "url_shape_at (drop (length pre) s)"
    unfolding d url_shape_at_def list_ex_iff using assms(1) by blast
  moreover have "length pre \<in> set [0..<Suc (length s)]"
    by (simp add: assms(2))
  ultimately show ?thesis
    unfolding has_url_shape_def list_ex_iff by blast
qed

lemma loose_form_has_shape:
  assumes sep: "sep = CHR ''?'' \<or> sep = CHR ''&''"
    and s: "s = pre @ ''youtube.com/'' @ mid @ sep # ''v='' @ cs @ post"
    and nl: "CHR 0x0A \<notin> set mid"
    and len: "11 < length cs"
    and al: "list_all allowed_char cs"
  shows "has_loose_shape s"
proof -
  define k where "k = length pre + 12 + length mid"
  define y where "y = ''youtube.com/''"
  have ly: "length y = 12"
    by (simp add: y_def)
  have sy: "s = pre @ y @ mid @ sep # ''v='' @ cs @ post"
    by (simp only: s y_def)
  have e1: "s = (pre @ y @ mid) @ sep # ''v='' @ cs @ post" and k1: "k = length (pre @ y @ mid)"
    by (simp_all add: sy k_def ly)
  have dk: "drop k s = sep # ''v='' @ cs @ post"
    unfolding e1 k1 by (rule drop_length_append)
  have sw: "starts_with_id (cs @ post)"
    using len al by (simp add: starts_with_id_run)
  have pk: "param_at (drop k s)"
    unfolding dk param_at_def using sep sw by auto
  have dp: "drop (length pre) s = y @ mid @ sep # ''v='' @ cs @ post"
    by (simp add: sy)
  have pre: "prefix ''youtube.com/'' (drop (length pre) s)"
    unfolding dp y_def [symmetric] by simp
  have e2: "s = (pre @ y) @ mid @ sep # ''v='' @ cs @ post" and k2: "12 + length pre = length (pre @ y)"
    by (simp_all add: sy ly)
  have d12: "drop (12 + length pre) s = mid @ sep # ''v='' @ cs @ post"
    unfolding e2 k2 by (rule drop_length_append)
  have "length mid \<le> line_len (drop (12 + length pre) s)"
    unfolding d12 using nl by (rule line_len_append)
  then have kin: "k \<in> set [12 + length pre..<Suc (12 + length pre + line_len (drop (12 + length pre) s))]"
    by (auto simp add: k_def simp del: upt_Suc)
  have "length pre \<in> set [0..<Suc (length s)]"
    by (simp add: s)
  then show ?thesis
    unfolding has_loose_shape_def list_ex_iff using pre kin pk by blast
qed

lemma rmatch_loose_Nil_shape:
  "rmatch loose_pattern s c i = [] \<longleftrightarrow> \<not> loose_shape_at s i"
  by (simp only: rmatch_loose_Nil loose_shape_at_def)

lemma concat_if_head:
  assumes "\<forall>m'\<in>set xs1. \<not> P m'" and "P m"
  shows "\<exists>ys. concat (map (\<lambda>m. if P m then [g m] else []) (xs1 @ m # xs2)) = g m # ys"
proof -
  have "concat (map (\<lambda>m. if P m then [g m] else []) xs1) = []"
    using assms(1) by (induction xs1) simp_all
  then have "concat (map (\<lambda>m. if P m then [g m] else []) (xs1 @ m # xs2)) =
      g m # concat (map (\<lambda>m. if P m then [g m] else []) xs2)"
    using assms(2) by simp
  then show ?thesis ..
qed

lemma line_len_append_eq:
  assumes "CHR 0x0A \<notin> set seg"
  shows "line_len (seg @ r) = length seg + line_len r"
proof -
  have "takeWhile (\<lambda>x. x \<noteq> CHR 0x0A) (seg @ r) = seg @ takeWhile (\<lambda>x. x \<noteq> CHR 0x0A) r"
    using assms by (intro takeWhile_append2) auto
  then show ?thesis
    by (simp add: line_len_def)
qed

lemma rev_upt_split:
  assumes "a \<le> k" and "k < b"
  shows "rev [a..<b] = rev [Suc k..<b] @ k # rev [a..<k]"
proof -
  have "[a..<b] = [a..<k] @ [k..<b]"
    using upt_add_eq_append [of a k "b - k"] assms by simp
  also have "[k..<b] = k # [Suc k..<b]"
    using assms(2) by (simp add: upt_conv_Cons)
  finally show ?thesis
    by simp
qed

lemma loose_form_extract_last:
  assumes sep: "sep = CHR ''?'' \<or> sep = CHR ''&''"
    and s: "s = pre @ ''youtube.com/'' @ mid @ sep # ''v='' @ cs @ post"
    and nl: "CHR 0x0A \<notin> set mid"
    and len: "11 < length cs"
    and al: "list_all allowed_char cs"
    and nourl: "\<not> has_url_shape s"
    and earlier: "\<forall>i<length pre. loose_shape_at s i \<longrightarrow> CHR 0x0A \<notin> set (drop i pre)"
    and later: "\<forall>j. length pre + 12 + length mid < j \<and>
        j \<le> length pre + 12 + length mid + line_len (drop (length pre + 12 + length mid) s) \<longrightarrow>
        \<not> param_at (drop j s)"
  shows "extract_video_id s = Some (take 11 cs)"
proof -
  define k where "k = length pre + 12 + length mid"
  define y where "y = ''youtube.com/''"
  define R where "R = sep # ''v='' @ cs @ post"
  have ly: "length y = 12"
    by (simp add: y_def)
  have ny: "CHR 0x0A \<notin> set y"
    by (simp add: y_def)
  have sy: "s = pre @ y @ mid @ R"
    by (simp only: s y_def R_def)
  have e1: "s = (pre @ y @ mid) @ R" and k1: "k = length (pre @ y @ mid)"
    by (simp_all add: sy k_def ly)
  have dk: "drop k s = R"
    unfolding e1 k1 by (rule drop_length_append)
  have sw: "starts_with_id (cs @ post)"
    using len al by (simp add: starts_with_id_run)
  have pk: "param_at (drop k s)"
    unfolding dk R_def param_at_def using sep sw by auto
  have shape: "has_loose_shape s"
    using sep s nl len al by (rule loose_form_has_shape)
  then obtain g where g: "re_search loose_pattern s = Some g"
    using re_search_loose_None_iff [of s] by auto
  then obtain i0 x xs where least: "\<forall>i<i0. rmatch loose_pattern s None i = []"
    and x: "rmatch loose_pattern s None i0 = x # xs" and gx: "g = fst x"
    unfolding re_search_def by (blast dest: first_match_concat_least)
  have at_pre: "loose_shape_at s (length pre)"
  proof -
    have dp: "drop (length pre) s = y @ mid @ R"
      by (simp add: sy)
    have p: "prefix ''youtube.com/'' (drop (length pre) s)"
      unfolding dp y_def [symmetric] by simp
    have e2: "s = (pre @ y) @ mid @ R" and k2: "12 + length pre = length (pre @ y)"
      by (simp_all add: sy ly)
    have d12: "drop (12 + length pre) s = mid @ R"
      unfolding e2 k2 by (rule drop_length_append)
    have "length mid \<le> line_len (drop (12 + length pre) s)"
      unfolding d12 using nl by (rule line_len_append)
    then have "k \<in> set [12 + length pre..<Suc (12 + length pre + line_len (drop (12 + length pre) s))]"
      by (auto simp add: k_def simp del: upt_Suc)
    then show ?thesis
      unfolding loose_shape_at_def list_ex_iff using p pk by blast
  qed
  have i0: "i0 \<le> length pre"
  proof (rule ccontr)
    assume "\<not> i0 \<le> length pre"
    then have "rmatch loose_pattern s None (length pre) = []"
      using least by simp
    then show False
      using at_pre by (simp add: rmatch_loose_Nil_shape)
  qed
  have at_i0: "loose_shape_at s i0"
    using x rmatch_loose_Nil_shape [of s None i0] by auto
  have np: "CHR 0x0A \<notin> set (drop i0 pre)"
  proof (cases "i0 < length pre")
    case True
    then show ?thesis using earlier at_i0 by blast
  next
    case False
    then show ?thesis using i0 by simp
  qed
  define seg where "seg = drop (12 + i0) (pre @ y @ mid)"
  have le: "12 + i0 \<le> length (pre @ y @ mid)"
    using i0 by (simp add: ly)
  have dseg: "drop (12 + i0) s = seg @ R"
    unfolding e1 seg_def using le by simp
  have sd: "seg = drop 12 (drop i0 (pre @ y @ mid))"
    unfolding seg_def by (simp only: drop_drop)
  have di: "drop i0 (pre @ y @ mid) = drop i0 pre @ y @ mid"
    using i0 by simp
  have "set seg \<subseteq> set (drop i0 (pre @ y @ mid))"
    unfolding sd by (rule set_drop_subset)
  then have nseg: "CHR 0x0A \<notin> set seg"
    unfolding di using np ny nl by auto
  have lseg: "12 + i0 + length seg = k"
    unfolding seg_def k1 using le by simp
  have "line_len (drop (12 + i0) s) = length seg + line_len (drop k s)"
    unfolding dseg dk using nseg by (rule line_len_append_eq)
  then have E: "12 + i0 + line_len (drop (12 + i0) s) = k + line_len (drop k s)"
    using lseg by simp
  have lo: "12 + i0 \<le> k"
    using lseg by simp
  have hi: "k < Suc (k + line_len (drop k s))"
    by simp
  have split: "rev [12 + i0..<Suc (12 + i0 + line_len (drop (12 + i0) s))] =
      rev [Suc k..<Suc (k + line_len (drop k s))] @ k # rev [12 + i0..<k]"
    unfolding E using lo hi by (rule rev_upt_split)
  have none: "\<forall>j\<in>set (rev [Suc k..<Suc (k + line_len (drop k s))]). \<not> param_at (drop j s)"
    using later by (auto simp add: k_def simp del: upt_Suc)
  have p0: "prefix ''youtube.com/'' (drop i0 s)"
    using at_i0 by (simp add: loose_shape_at_def)
  have "\<exists>ys. rmatch loose_pattern s None i0 =
      (Some (take 11 (drop 3 (drop k s))), 14 + k) # ys"
    using p0 concat_if_head [of "rev [Suc k..<Suc (k + line_len (drop k s))]"
        "\<lambda>j. param_at (drop j s)" k
        "\<lambda>j. (Some (take 11 (drop 3 (drop j s))), 14 + j)" "rev [12 + i0..<k]", OF none pk]
    by (simp only: rmatch_loose_pattern if_True split)
  then have "fst x = Some (take 11 (drop 3 (drop k s)))"
    using x by auto
  then have "g = Some (take 11 cs)"
    using gx len by (simp add: dk R_def)
  moreover have "re_search url_pattern s = None"
    using nourl by (simp add: re_search_url_None)
  moreover have "length s \<noteq> 11"
    using len by (simp add: s)
  ultimately show ?thesis
    using g by (simp add: extract_by_loose)
qed

lemma all_between_list_all:
  "(\<forall>j. a < j \<and> j \<le> b \<longrightarrow> P j) \<longleftrightarrow> list_all P [Suc a..<Suc b]"
  by (auto simp add: list_all_iff less_Suc_eq_le Suc_le_eq simp del: upt_Suc)

section \<open>Properties of the formatter\<close>

lemma format_loop_map: "format_loop acc xs = acc @ map format_entry xs"
  by (induction xs arbitrary: acc) simp_all

lemma format_transcript_map: "format_transcript xs = map format_entry xs"
  by (simp add: format_transcript_def format_loop_map)


















lemma bit_length_nonneg: "0 \<le> bit_length n"
proof (induction n rule: bit_length.induct)
  case (1 n)
  then show ?case by (subst bit_length.simps) simp
qed













section \<open>Properties of the fetcher\<close>

lemma direct_attempt_cases:
  "direct_attempt w vid tr =
     (case api_get_transcript w vid None of
        Inr t \<Rightarrow> (Inr (format_transcript t), tr @ [ApiGetTranscript vid None])
      | Inl e \<Rightarrow> (Inl (''No transcript available for video '' @ vid @ '': '' @ e),
                  tr @ [ApiGetTranscript vid None, ApiListTranscripts vid]))"
  by (simp add: direct_attempt_def split: sum.splits)

lemma get_transcript_proxy_failed:
  assumes "environ w ''YOUTUBE_PROXY'' = Some proxy" and "proxy \<noteq> []"
    and "api_get_transcript w vid (Some (proxies_for proxy)) = Inl e1"
  shows "get_transcript w vid tr =
     direct_attempt w vid
       (tr @ [ApiGetTranscript vid (Some (proxies_for proxy)),
              Print (''Proxy failed ('' @ proxy @ ''): '' @ e1)])"
  using assms by (simp add: get_transcript_def proxies_for_def)

lemma get_transcript_no_proxy:
  assumes "environ w ''YOUTUBE_PROXY'' = None \<or> environ w ''YOUTUBE_PROXY'' = Some []"
  shows "get_transcript w vid tr = direct_attempt w vid tr"
  using assms by (auto simp add: get_transcript_def)

lemma get_transcript_trace_append:
  "snd (get_transcript w vid tr) = tr @ snd (get_transcript w vid [])"
  by (simp add: get_transcript_def direct_attempt_cases Let_def split: option.splits sum.splits)

lemma direct_attempt_no_proxy_event:
  "\<not> list_ex is_proxy_attempt (drop (length tr) (snd (direct_attempt w vid tr)))"
  by (simp add: direct_attempt_cases split: sum.splits)

lemma direct_attempt_hd:
  "hd (drop (length tr) (snd (direct_attempt w vid tr))) = ApiGetTranscript vid None"
  by (simp add: direct_attempt_cases split: sum.splits)

lemma get_transcript_proxy_first:
  assumes "environ w ''YOUTUBE_PROXY'' = Some p" and "p \<noteq> []"
  shows "hd (snd (get_transcript w vid [])) = ApiGetTranscript vid (Some (proxies_for p))"
  using assms
  by (simp add: get_transcript_def direct_attempt_cases proxies_for_def Let_def split: sum.splits)

lemma get_transcript_video_ids:
  "set (api_video_ids (snd (get_transcript w vid []))) = {vid}"
  by (simp add: get_transcript_def direct_attempt_cases api_video_ids_def List.map_filter_simps
      Let_def split: option.splits sum.splits)

section \<open>Claims about the video ID resolver\<close>

text \<open>
  Claim C3. Every input of exactly 11 characters, all of them from \<^verbatim>\<open>[a-zA-Z0-9_-]\<close>, is
  returned unchanged by \<open>extract_video_id\<close>.
\<close>

theorem extract_video_id_bare_id:
  "length s = 11 \<Longrightarrow> list_all allowed_char s \<Longrightarrow> extract_video_id s = Some s"
  by (simp add: extract_video_id_def bare_id_match starts_with_id_def)

text \<open>The bare id \<^verbatim>\<open>dQw4w9WgXcQ\<close> of the specification's first scenario.\<close>

theorem extract_video_id_bare_id_witness:
  "length ''dQw4w9WgXcQ'' = 11 \<and> list_all allowed_char ''dQw4w9WgXcQ'' \<and>
   extract_video_id ''dQw4w9WgXcQ'' = Some ''dQw4w9WgXcQ''"
proof -
  have h1: "length ''dQw4w9WgXcQ'' = 11" by simp
  have h2: "list_all allowed_char ''dQw4w9WgXcQ''" by (simp add: allowed_char_def in_range_def)
  show ?thesis
    using h1 h2 extract_video_id_bare_id [OF h1 h2] by simp
qed

text \<open>
  Claim C4. An input that is not itself a bare id of 11 allowed characters, that contains
  none of the three URL forms followed by a video id, and that does not contain
  \<^verbatim>\<open>youtube.com/\<close> followed later on the same line by a \<^verbatim>\<open>v=\<close> parameter with a video
  id, is resolved to \<open>None\<close>. The resolver is a total function into an option type: it has
  no other outcome, in particular no exception.
\<close>

theorem extract_video_id_not_found:
  assumes "\<not> (length s = 11 \<and> list_all allowed_char s)"
    and "\<not> has_url_shape s" and "\<not> has_loose_shape s"
  shows "extract_video_id s = None"
proof -
  have "\<not> (length s = 11 \<and> re_match bare_id_pattern s \<noteq> None)"
    using assms(1) by (auto simp: bare_id_match starts_with_id_def)
  moreover have "re_search url_pattern s = None"
    using assms(2) by (simp add: re_search_url_None)
  moreover have "re_search loose_pattern s = None"
    using assms(3) by (rule re_search_loose_None)
  ultimately have "\<not> (length s = 11 \<and> re_match bare_id_pattern s \<noteq> None)"
    and "search_patterns patterns s = None"
    by (simp_all add: patterns_def)
  then show ?thesis
    by (simp only: extract_video_id_def if_False)
qed

text \<open>The input of the specification's fourth scenario.\<close>

theorem extract_video_id_not_found_witness:
  "\<not> (length ''not-a-valid-id-or-url'' = 11 \<and> list_all allowed_char ''not-a-valid-id-or-url'') \<and>
   \<not> has_url_shape ''not-a-valid-id-or-url'' \<and>
   \<not> has_loose_shape ''not-a-valid-id-or-url'' \<and>
   extract_video_id ''not-a-valid-id-or-url'' = None"
proof -
  have h1: "\<not> (length ''not-a-valid-id-or-url'' = 11 \<and> list_all allowed_char ''not-a-valid-id-or-url'')"
    by simp
  have h2: "\<not> has_url_shape ''not-a-valid-id-or-url''"
    by code_simp
  have h3: "\<not> has_loose_shape ''not-a-valid-id-or-url''"
    by code_simp
  show ?thesis
    using h1 h2 h3 extract_video_id_not_found [OF h1 h2 h3] by simp
qed

text \<open>
  Claim C10 reads: whenever the \<^verbatim>\<open>v=\<close> parameter value, or the path segment behind
  \<^verbatim>\<open>youtu.be/\<close> or \<^verbatim>\<open>embed/\<close>, begins with more than 11 allowed characters, the resolver
  returns the first 11 of them. That fails when the input offers the patterns another
  place: with two \<^verbatim>\<open>v=\<close> parameters the greedy \<^verbatim>\<open>.*\<close> picks the last one; a URL form further
  left wins over a later one; a URL form wins over a \<^verbatim>\<open>v=\<close> parameter; and the looser
  form on an earlier line wins over one on a later line.
\<close>

theorem extract_video_id_truncates_counterexample:
  "11 < length ''AAAAAAAAAAAAA'' \<and> list_all allowed_char ''AAAAAAAAAAAAA'' \<and>
   extract_video_id (''https://www.'' @ ''youtube.com/'' @ ''playlist'' @ CHR ''?'' # ''v='' @
       ''AAAAAAAAAAAAA'' @ ''&v=BBBBBBBBBBBBB'') = Some ''BBBBBBBBBBB'' \<and>
   Some ''BBBBBBBBBBB'' \<noteq> Some (take 11 ''AAAAAAAAAAAAA'') \<and>
   11 < length ''BBBBBBBBBBBBB'' \<and> list_all allowed_char ''BBBBBBBBBBBBB'' \<and>
   extract_video_id (''https://youtu.be/AAAAAAAAAAA?u='' @ ''youtu.be/'' @ ''BBBBBBBBBBBBB'' @ '''') =
     Some ''AAAAAAAAAAA'' \<and>
   extract_video_id (''https://www.youtube.com/embed/AAAAAAAAAAA'' @ CHR ''?'' # ''v='' @
       ''BBBBBBBBBBBBB'' @ '''') = Some ''AAAAAAAAAAA'' \<and>
   extract_video_id (''youtube.com/?v=AAAAAAAAAAA'' @ [CHR 0x0A] @ ''youtube.com/'' @ '''' @
       CHR ''?'' # ''v='' @ ''BBBBBBBBBBBBB'' @ '''') = Some ''AAAAAAAAAAA'' \<and>
   Some ''AAAAAAAAAAA'' \<noteq> Some (take 11 ''BBBBBBBBBBBBB'')"
proof -
  have "extract_video_id (''https://www.'' @ ''youtube.com/'' @ ''playlist'' @ CHR ''?'' # ''v='' @
       ''AAAAAAAAAAAAA'' @ ''&v=BBBBBBBBBBBBB'') = Some ''BBBBBBBBBBB''"
    by code_simp
  moreover have "extract_video_id (''https://youtu.be/AAAAAAAAAAA?u='' @ ''youtu.be/'' @ ''BBBBBBBBBBBBB'' @ '''') =
     Some ''AAAAAAAAAAA''"
    by code_simp
  moreover have "extract_video_id (''https://www.youtube.com/embed/AAAAAAAAAAA'' @ CHR ''?'' # ''v='' @
       ''BBBBBBBBBBBBB'' @ '''') = Some ''AAAAAAAAAAA''"
    by code_simp
  moreover have "extract_video_id (''youtube.com/?v=AAAAAAAAAAA'' @ [CHR 0x0A] @ ''youtube.com/'' @ '''' @
       CHR ''?'' # ''v='' @ ''BBBBBBBBBBBBB'' @ '''') = Some ''AAAAAAAAAAA''"
    by code_simp
  ultimately show ?thesis
    by (simp add: allowed_char_def in_range_def)
qed

text \<open>
  Claim C10, amended. Let one of the three URL markers, or \<^verbatim>\<open>youtube.com/\<close> followed on the
  same line by a \<^verbatim>\<open>v=\<close> parameter, be followed by a run \<open>cs\<close> of more than 11 allowed
  characters. Then the resolver never answers \<open>None\<close>: it returns an id of 11 allowed
  characters. The id is the first 11 characters of the run \<open>cs\<close> when the run is at the
  place the patterns pick. For a URL marker: no URL form begins further left. For the
  \<^verbatim>\<open>v=\<close> parameter: the input has none of the three URL forms, no further \<^verbatim>\<open>v=\<close>
  parameter with an id follows on the same line, and every earlier place where the looser
  form begins is on the same line.
\<close>

theorem extract_video_id_truncates:
  assumes "11 < length cs" and "list_all allowed_char cs"
    and "(m \<in> set url_markers \<and> s = pre @ m @ cs @ post)
       \<or> ((sep = CHR ''?'' \<or> sep = CHR ''&'') \<and>
          s = pre @ ''youtube.com/'' @ mid @ sep # ''v='' @ cs @ post \<and>
          CHR 0x0A \<notin> set mid)"
  shows "(\<exists>v. extract_video_id s = Some v \<and> length v = 11 \<and> list_all allowed_char v) \<and>
     (m \<in> set url_markers \<and> s = pre @ m @ cs @ post \<and>
        (\<forall>i<length pre. \<not> url_shape_at (drop i s)) \<longrightarrow>
      extract_video_id s = Some (take 11 cs)) \<and>
     ((sep = CHR ''?'' \<or> sep = CHR ''&'') \<and>
        s = pre @ ''youtube.com/'' @ mid @ sep # ''v='' @ cs @ post \<and>
        CHR 0x0A \<notin> set mid \<and> \<not> has_url_shape s \<and>
        (\<forall>i<length pre. loose_shape_at s i \<longrightarrow> CHR 0x0A \<notin> set (drop i pre)) \<and>
        (\<forall>j. length pre + 12 + length mid < j \<and>
             j \<le> length pre + 12 + length mid +
                 line_len (drop (length pre + 12 + length mid) s) \<longrightarrow>
             \<not> param_at (drop j s)) \<longrightarrow>
      extract_video_id s = Some (take 11 cs))"
proof (intro conjI impI)
  have "has_url_shape s \<or> has_loose_shape s"
    using assms(3)
  proof
    assume "m \<in> set url_markers \<and> s = pre @ m @ cs @ post"
    then have "has_url_shape s"
      using assms(1,2) by (blast intro: url_form_has_shape)
    then show ?thesis ..
  next
    assume a: "(sep = CHR ''?'' \<or> sep = CHR ''&'') \<and>
          s = pre @ ''youtube.com/'' @ mid @ sep # ''v='' @ cs @ post \<and>
          CHR 0x0A \<notin> set mid"
    then have a1: "sep = CHR ''?'' \<or> sep = CHR ''&''"
      and a2: "s = pre @ ''youtube.com/'' @ mid @ sep # ''v='' @ cs @ post"
      and a3: "CHR 0x0A \<notin> set mid"
      by blast+
    have "has_loose_shape s"
      using a1 a2 a3 assms(1,2) by (rule loose_form_has_shape)
    then show ?thesis ..
  qed
  then show "\<exists>v. extract_video_id s = Some v \<and> length v = 11 \<and> list_all allowed_char v"
    by (rule extract_video_id_found)
next
  assume "m \<in> set url_markers \<and> s = pre @ m @ cs @ post \<and>
        (\<forall>i<length pre. \<not> url_shape_at (drop i s))"
  then show "extract_video_id s = Some (take 11 cs)"
    using assms(1,2) by (blast intro: url_form_extract)
next
  assume a: "(sep = CHR ''?'' \<or> sep = CHR ''&'') \<and>
        s = pre @ ''youtube.com/'' @ mid @ sep # ''v='' @ cs @ post \<and>
        CHR 0x0A \<notin> set mid \<and> \<not> has_url_shape s \<and>
        (\<forall>i<length pre. loose_shape_at s i \<longrightarrow> CHR 0x0A \<notin> set (drop i pre)) \<and>
        (\<forall>j. length pre + 12 + length mid < j \<and>
             j \<le> length pre + 12 + length mid +
                 line_len (drop (length pre + 12 + length mid) s) \<longrightarrow>
             \<not> param_at (drop j s))"
  from a have a1: "sep = CHR ''?'' \<or> sep = CHR ''&''"
    and a2: "s = pre @ ''youtube.com/'' @ mid @ sep # ''v='' @ cs @ post"
    and a3: "CHR 0x0A \<notin> set mid"
    and a4: "\<not> has_url_shape s"
    and a5: "\<forall>i<length pre. loose_shape_at s i \<longrightarrow> CHR 0x0A \<notin> set (drop i pre)"
    and a6: "\<forall>j. length pre + 12 + length mid < j \<and>
             j \<le> length pre + 12 + length mid +
                 line_len (drop (length pre + 12 + length mid) s) \<longrightarrow>
             \<not> param_at (drop j s)"
    by blast+
  show "extract_video_id s = Some (take 11 cs)"
    using a1 a2 a3 assms(1,2) a4 a5 a6 by (rule loose_form_extract_last)
qed

text \<open>A short link and a watch URL whose \<^verbatim>\<open>v=\<close> parameter is not the first one, each with
  a run of 13 allowed characters.\<close>

theorem extract_video_id_truncates_witness:
  "extract_video_id ''https://youtu.be/dQw4w9WgXcQzz?t=1'' = Some ''dQw4w9WgXcQ'' \<and>
   extract_video_id ''https://www.youtube.com/watch?feature=share&v=dQw4w9WgXcQzz&t=1'' = Some ''dQw4w9WgXcQ''"
proof -
  have c1: "11 < length ''dQw4w9WgXcQzz''" by simp
  have c2: "list_all allowed_char ''dQw4w9WgXcQzz''" by (simp add: allowed_char_def in_range_def)
  have f: "\<forall>i<length ''https://''. \<not> url_shape_at (drop i (''https://'' @ ''youtu.be/'' @ ''dQw4w9WgXcQzz'' @ ''?t=1''))"
    unfolding all_less_list_all by code_simp
  have a0: "''youtu.be/'' \<in> set url_markers \<and>
        ''https://'' @ ''youtu.be/'' @ ''dQw4w9WgXcQzz'' @ ''?t=1'' = ''https://'' @ ''youtu.be/'' @ ''dQw4w9WgXcQzz'' @ ''?t=1''"
    by (simp add: url_markers_def)
  have a: "''youtu.be/'' \<in> set url_markers \<and>
        ''https://'' @ ''youtu.be/'' @ ''dQw4w9WgXcQzz'' @ ''?t=1'' = ''https://'' @ ''youtu.be/'' @ ''dQw4w9WgXcQzz'' @ ''?t=1'' \<and>
          (\<forall>i<length ''https://''. \<not> url_shape_at (drop i (''https://'' @ ''youtu.be/'' @ ''dQw4w9WgXcQzz'' @ ''?t=1'')))"
    using f a0 by blast
  define s where "s = ''https://www.'' @ ''youtube.com/'' @ ''watch?feature=share'' @ CHR ''&'' # ''v='' @ ''dQw4w9WgXcQzz'' @ ''&t=1''"
  have u: "\<not> has_url_shape s"
    unfolding s_def by code_simp
  have e: "\<forall>i<length ''https://www.''. loose_shape_at s i \<longrightarrow> CHR 0x0A \<notin> set (drop i ''https://www.'')"
    unfolding all_less_list_all s_def by code_simp
  have l: "\<forall>j. length ''https://www.'' + 12 + length ''watch?feature=share'' < j \<and>
        j \<le> length ''https://www.'' + 12 + length ''watch?feature=share'' +
            line_len (drop (length ''https://www.'' + 12 + length ''watch?feature=share'') s) \<longrightarrow>
        \<not> param_at (drop j s)"
    unfolding all_between_list_all s_def by code_simp
  have b0: "(CHR ''&'' = CHR ''?'' \<or> CHR ''&'' = CHR ''&'') \<and>
          s = ''https://www.'' @ ''youtube.com/'' @ ''watch?feature=share'' @ CHR ''&'' # ''v='' @ ''dQw4w9WgXcQzz'' @ ''&t=1'' \<and>
          CHR 0x0A \<notin> set ''watch?feature=share''"
    by (simp add: s_def)
  have b: "(CHR ''&'' = CHR ''?'' \<or> CHR ''&'' = CHR ''&'') \<and>
          s = ''https://www.'' @ ''youtube.com/'' @ ''watch?feature=share'' @ CHR ''&'' # ''v='' @ ''dQw4w9WgXcQzz'' @ ''&t=1'' \<and>
          CHR 0x0A \<notin> set ''watch?feature=share'' \<and> \<not> has_url_shape s \<and>
          (\<forall>i<length ''https://www.''. loose_shape_at s i \<longrightarrow> CHR 0x0A \<notin> set (drop i ''https://www.'')) \<and>
          (\<forall>j. length ''https://www.'' + 12 + length ''watch?feature=share'' < j \<and>
        j \<le> length ''https://www.'' + 12 + length ''watch?feature=share'' +
            line_len (drop (length ''https://www.'' + 12 + length ''watch?feature=share'') s) \<longrightarrow>
        \<not> param_at (drop j s))"
    using b0 u e l by blast
  have "extract_video_id s = Some (take 11 ''dQw4w9WgXcQzz'')"
    using extract_video_id_truncates [OF c1 c2 disjI2, OF b0, THEN conjunct2, THEN conjunct2, rule_format, OF b] .
  then show ?thesis
    using extract_video_id_truncates [OF c1 c2 disjI1, OF a0, THEN conjunct2, THEN conjunct1, rule_format, OF a]
    by (simp add: s_def)
qed

section \<open>Claims about the transcript formatter\<close>




text \<open>
  Claim C6. \<open>format_transcript\<close> preserves length and order: the output is as long as the
  input, its times and texts are the start offsets and texts of the input in the same
  order, and the entry at each index is the formatted entry of the input at that index.
\<close>

theorem format_transcript_preserves:
  "length (format_transcript xs) = length xs \<and>
   map time (format_transcript xs) = map entry_start xs \<and>
   map text' (format_transcript xs) = map entry_text xs \<and>
   (\<forall>i<length xs. format_transcript xs ! i = format_entry (xs ! i) \<and>
      time (format_transcript xs ! i) = entry_start (xs ! i) \<and>
      text' (format_transcript xs ! i) = entry_text (xs ! i))"
  by (simp add: format_transcript_map format_entry_def)

text \<open>Two segments given out of chronological order stay in the order given.\<close>

theorem format_transcript_preserves_witness:
  "length (format_transcript [\<lparr>entry_start = PyInt 75, entry_text = ''b''\<rparr>, \<lparr>entry_start = PyInt 0, entry_text = ''a''\<rparr>]) = 2 \<and>
   map time (format_transcript [\<lparr>entry_start = PyInt 75, entry_text = ''b''\<rparr>, \<lparr>entry_start = PyInt 0, entry_text = ''a''\<rparr>]) = [PyInt 75, PyInt 0] \<and>
   text' (format_transcript [\<lparr>entry_start = PyInt 75, entry_text = ''b''\<rparr>, \<lparr>entry_start = PyInt 0, entry_text = ''a''\<rparr>] ! 1) = ''a''"
proof -
  note t = format_transcript_preserves
    [of "[\<lparr>entry_start = PyInt 75, entry_text = ''b''\<rparr>, \<lparr>entry_start = PyInt 0, entry_text = ''a''\<rparr>]"]
  have i: "1 < length [\<lparr>entry_start = PyInt 75, entry_text = ''b''\<rparr>, \<lparr>entry_start = PyInt 0, entry_text = ''a''\<rparr>]"
    by simp
  from t have "length (format_transcript [\<lparr>entry_start = PyInt 75, entry_text = ''b''\<rparr>, \<lparr>entry_start = PyInt 0, entry_text = ''a''\<rparr>]) = 2"
    by simp
  moreover from t have "map time (format_transcript [\<lparr>entry_start = PyInt 75, entry_text = ''b''\<rparr>, \<lparr>entry_start = PyInt 0, entry_text = ''a''\<rparr>]) = [PyInt 75, PyInt 0]"
    by simp
  moreover have "text' (format_transcript [\<lparr>entry_start = PyInt 75, entry_text = ''b''\<rparr>, \<lparr>entry_start = PyInt 0, entry_text = ''a''\<rparr>] ! 1) = ''a''"
    using t [THEN conjunct2, THEN conjunct2, THEN conjunct2, rule_format, OF i, THEN conjunct2, THEN conjunct2]
    by simp
  ultimately show ?thesis
    by (intro conjI)
qed

section \<open>Claims about the transcript fetcher\<close>

text \<open>
  Claim C1 expects that, when the proxy attempt and the direct attempt fail and the
  enumeration succeeds, the failure detail lists the available language codes. The program
  builds that message but raises it inside the \<^verbatim>\<open>try\<close> block whose bare \<^verbatim>\<open>except:\<close>
  catches it, so the detail that reaches the caller is always the one built from the
  failure of the direct attempt. In the fifth scenario of the specification the enumeration
  returns \<^verbatim>\<open>es\<close> and \<^verbatim>\<open>fr\<close>, and the detail mentions neither.
\<close>

theorem get_transcript_languages_lost:
  "api_list_transcripts world_all_fail ''dQw4w9WgXcQ'' = Inr [''es'', ''fr''] \<and>
   fst (get_transcript world_all_fail ''dQw4w9WgXcQ'' []) =
     Inl ''No transcript available for video dQw4w9WgXcQ: direct fetch failed'' \<and>
   \<not> mentions ''No transcript available for video dQw4w9WgXcQ: direct fetch failed'' ''es'' \<and>
   \<not> mentions ''No transcript available for video dQw4w9WgXcQ: direct fetch failed'' ''fr''"
proof -
  have "api_list_transcripts world_all_fail ''dQw4w9WgXcQ'' = Inr [''es'', ''fr'']"
    by (simp add: world_all_fail_def)
  moreover have "fst (get_transcript world_all_fail ''dQw4w9WgXcQ'' []) =
     Inl ''No transcript available for video dQw4w9WgXcQ: direct fetch failed''"
    by (simp add: get_transcript_def direct_attempt_def world_all_fail_def)
  moreover have "\<not> mentions ''No transcript available for video dQw4w9WgXcQ: direct fetch failed'' ''es''"
    by code_simp
  moreover have "\<not> mentions ''No transcript available for video dQw4w9WgXcQ: direct fetch failed'' ''fr''"
    by code_simp
  ultimately show ?thesis
    by (intro conjI)
qed

text \<open>
  Claim C2. When a proxy is configured and the attempt through it raises, the failure is
  printed and the direct attempt is made exactly once. If the direct attempt succeeds its
  formatted transcript is the result, so the proxy failure alone is never fatal. If the
  direct attempt raises too, the enumeration is attempted exactly once, after it, and the
  final failure carries the message of the direct attempt, not that of the proxy.
\<close>

theorem get_transcript_fallback:
  assumes "environ w ''YOUTUBE_PROXY'' = Some proxy" and "proxy \<noteq> []"
    and "api_get_transcript w vid (Some (proxies_for proxy)) = Inl e1"
  shows "count_list (snd (get_transcript w vid [])) (ApiGetTranscript vid None) = 1 \<and>
     take 2 (snd (get_transcript w vid [])) =
       [ApiGetTranscript vid (Some (proxies_for proxy)),
        Print (''Proxy failed ('' @ proxy @ ''): '' @ e1)] \<and>
     (\<forall>t. api_get_transcript w vid None = Inr t \<longrightarrow>
        get_transcript w vid [] =
          (Inr (format_transcript t),
           [ApiGetTranscript vid (Some (proxies_for proxy)),
            Print (''Proxy failed ('' @ proxy @ ''): '' @ e1),
            ApiGetTranscript vid None])) \<and>
     (\<forall>e2. api_get_transcript w vid None = Inl e2 \<longrightarrow>
        count_list (snd (get_transcript w vid [])) (ApiListTranscripts vid) = 1 \<and>
        get_transcript w vid [] =
          (Inl (''No transcript available for video '' @ vid @ '': '' @ e2),
           [ApiGetTranscript vid (Some (proxies_for proxy)),
            Print (''Proxy failed ('' @ proxy @ ''): '' @ e1),
            ApiGetTranscript vid None,
            ApiListTranscripts vid]))"
  by (simp add: get_transcript_proxy_failed [OF assms] direct_attempt_cases split: sum.splits)

text \<open>The traces of the two worlds: both attempts failing, and the direct attempt
  succeeding after the proxy failed.\<close>

theorem get_transcript_fallback_witness:
  "get_transcript world_all_fail ''dQw4w9WgXcQ'' [] =
     (Inl ''No transcript available for video dQw4w9WgXcQ: direct fetch failed'',
      [ApiGetTranscript ''dQw4w9WgXcQ'' (Some [(''http'', ''http://10.0.0.1:3128''), (''https'', ''http://10.0.0.1:3128'')]),
       Print ''Proxy failed (10.0.0.1:3128): proxy down'',
       ApiGetTranscript ''dQw4w9WgXcQ'' None,
       ApiListTranscripts ''dQw4w9WgXcQ'']) \<and>
   count_list (snd (get_transcript world_all_fail ''dQw4w9WgXcQ'' [])) (ApiGetTranscript ''dQw4w9WgXcQ'' None) = 1 \<and>
   count_list (snd (get_transcript world_direct_ok ''dQw4w9WgXcQ'' [])) (ApiGetTranscript ''dQw4w9WgXcQ'' None) = 1"
proof -
  have a: "environ world_all_fail ''YOUTUBE_PROXY'' = Some ''10.0.0.1:3128''"
    and b: "''10.0.0.1:3128'' \<noteq> []"
    and c: "api_get_transcript world_all_fail ''dQw4w9WgXcQ'' (Some (proxies_for ''10.0.0.1:3128'')) = Inl ''proxy down''"
    and d: "api_get_transcript world_all_fail ''dQw4w9WgXcQ'' None = Inl ''direct fetch failed''"
    by (simp_all add: world_all_fail_def)
  have a': "environ world_direct_ok ''YOUTUBE_PROXY'' = Some ''10.0.0.1:3128''"
    and c': "api_get_transcript world_direct_ok ''dQw4w9WgXcQ'' (Some (proxies_for ''10.0.0.1:3128'')) = Inl ''proxy down''"
    by (simp_all add: world_direct_ok_def)
  note t = get_transcript_fallback [OF a b c]
  note t' = get_transcript_fallback [OF a' b c']
  from t have "get_transcript world_all_fail ''dQw4w9WgXcQ'' [] =
     (Inl (''No transcript available for video '' @ ''dQw4w9WgXcQ'' @ '': '' @ ''direct fetch failed''),
           [ApiGetTranscript ''dQw4w9WgXcQ'' (Some (proxies_for ''10.0.0.1:3128'')),
            Print (''Proxy failed ('' @ ''10.0.0.1:3128'' @ ''): '' @ ''proxy down''),
            ApiGetTranscript ''dQw4w9WgXcQ'' None,
            ApiListTranscripts ''dQw4w9WgXcQ''])"
    using d by blast
  then have "get_transcript world_all_fail ''dQw4w9WgXcQ'' [] =
     (Inl ''No transcript available for video dQw4w9WgXcQ: direct fetch failed'',
      [ApiGetTranscript ''dQw4w9WgXcQ'' (Some [(''http'', ''http://10.0.0.1:3128''), (''https'', ''http://10.0.0.1:3128'')]),
       Print ''Proxy failed (10.0.0.1:3128): proxy down'',
       ApiGetTranscript ''dQw4w9WgXcQ'' None,
       ApiListTranscripts ''dQw4w9WgXcQ''])"
    by (simp add: proxies_for_def)
  then show ?thesis
    using t [THEN conjunct1] t' [THEN conjunct1] by (intro conjI)
qed

text \<open>
  Claim C7. The fetcher reads \<^verbatim>\<open>YOUTUBE_PROXY\<close> from the environment of the world it is
  called in. A proxy attempt occurs if and only if the variable is set and not empty; it
  is then the first event of the call, and its proxy settings route \<^verbatim>\<open>http\<close> and
  \<^verbatim>\<open>https\<close> through the configured address. When the variable is absent or empty the call
  is the direct attempt and nothing else.
\<close>

theorem get_transcript_proxy_config:
  "(list_ex is_proxy_attempt (snd (get_transcript w vid [])) \<longleftrightarrow>
      (\<exists>p. environ w ''YOUTUBE_PROXY'' = Some p \<and> p \<noteq> [])) \<and>
   (\<forall>p. environ w ''YOUTUBE_PROXY'' = Some p \<and> p \<noteq> [] \<longrightarrow>
      hd (snd (get_transcript w vid [])) =
        ApiGetTranscript vid (Some [(''http'', ''http://'' @ p), (''https'', ''http://'' @ p)])) \<and>
   (environ w ''YOUTUBE_PROXY'' = None \<or> environ w ''YOUTUBE_PROXY'' = Some [] \<longrightarrow>
      get_transcript w vid [] = direct_attempt w vid [] \<and>
      hd (snd (get_transcript w vid [])) = ApiGetTranscript vid None)"
proof (intro conjI allI impI)
  show "list_ex is_proxy_attempt (snd (get_transcript w vid [])) \<longleftrightarrow>
      (\<exists>p. environ w ''YOUTUBE_PROXY'' = Some p \<and> p \<noteq> [])"
  proof (cases "environ w ''YOUTUBE_PROXY'' = None \<or> environ w ''YOUTUBE_PROXY'' = Some []")
    case True
    then have "get_transcript w vid [] = direct_attempt w vid []"
      by (rule get_transcript_no_proxy)
    then have "\<not> list_ex is_proxy_attempt (snd (get_transcript w vid []))"
      using direct_attempt_no_proxy_event [of "[]" w vid] by simp
    then show ?thesis
      using True by auto
  next
    case False
    then obtain p where p: "environ w ''YOUTUBE_PROXY'' = Some p" "p \<noteq> []"
      by (cases "environ w ''YOUTUBE_PROXY''") auto
    then have "list_ex is_proxy_attempt (snd (get_transcript w vid []))"
      by (simp add: get_transcript_def direct_attempt_cases Let_def split: sum.splits)
    then show ?thesis
      using p by blast
  qed
next
  fix p
  assume "environ w ''YOUTUBE_PROXY'' = Some p \<and> p \<noteq> []"
  then show "hd (snd (get_transcript w vid [])) =
        ApiGetTranscript vid (Some [(''http'', ''http://'' @ p), (''https'', ''http://'' @ p)])"
    using get_transcript_proxy_first [of w p vid] by (simp add: proxies_for_def)
next
  assume a: "environ w ''YOUTUBE_PROXY'' = None \<or> environ w ''YOUTUBE_PROXY'' = Some []"
  then show "get_transcript w vid [] = direct_attempt w vid []"
    by (rule get_transcript_no_proxy)
  then show "hd (snd (get_transcript w vid [])) = ApiGetTranscript vid None"
    using direct_attempt_hd [of "[]" w vid] by simp
qed

text \<open>The same dependency called under three environments: the variable set, absent,
  and empty.\<close>

theorem get_transcript_proxy_config_witness:
  "hd (snd (get_transcript world_direct_ok ''dQw4w9WgXcQ'' [])) =
     ApiGetTranscript ''dQw4w9WgXcQ''
       (Some [(''http'', ''http://10.0.0.1:3128''), (''https'', ''http://10.0.0.1:3128'')]) \<and>
   list_ex is_proxy_attempt (snd (get_transcript world_direct_ok ''dQw4w9WgXcQ'' [])) \<and>
   hd (snd (get_transcript (world_direct_ok\<lparr>environ := \<lambda>name. None\<rparr>) ''dQw4w9WgXcQ'' [])) =
     ApiGetTranscript ''dQw4w9WgXcQ'' None \<and>
   \<not> list_ex is_proxy_attempt (snd (get_transcript (world_direct_ok\<lparr>environ := \<lambda>name. Some []\<rparr>) ''dQw4w9WgXcQ'' []))"
proof -
  have a: "environ world_direct_ok ''YOUTUBE_PROXY'' = Some ''10.0.0.1:3128'' \<and> ''10.0.0.1:3128'' \<noteq> []"
    by (simp add: world_direct_ok_def)
  have b: "environ (world_direct_ok\<lparr>environ := \<lambda>name. None\<rparr>) ''YOUTUBE_PROXY'' = None \<or>
      environ (world_direct_ok\<lparr>environ := \<lambda>name. None\<rparr>) ''YOUTUBE_PROXY'' = Some []"
    by simp
  have c: "\<not> (\<exists>p. environ (world_direct_ok\<lparr>environ := \<lambda>name. Some []\<rparr>) ''YOUTUBE_PROXY'' = Some p \<and> p \<noteq> [])"
    by simp
  note t1 = get_transcript_proxy_config [of world_direct_ok "''dQw4w9WgXcQ''"]
  note t2 = get_transcript_proxy_config [of "world_direct_ok\<lparr>environ := \<lambda>name. None\<rparr>" "''dQw4w9WgXcQ''"]
  note t3 = get_transcript_proxy_config [of "world_direct_ok\<lparr>environ := \<lambda>name. Some []\<rparr>" "''dQw4w9WgXcQ''"]
  have "hd (snd (get_transcript world_direct_ok ''dQw4w9WgXcQ'' [])) =
     ApiGetTranscript ''dQw4w9WgXcQ''
       (Some [(''http'', ''http://'' @ ''10.0.0.1:3128''), (''https'', ''http://'' @ ''10.0.0.1:3128'')])"
    using t1 [THEN conjunct2, THEN conjunct1, rule_format, OF a] .
  moreover have "list_ex is_proxy_attempt (snd (get_transcript world_direct_ok ''dQw4w9WgXcQ'' []))"
    using t1 [THEN conjunct1] a by blast
  moreover have "hd (snd (get_transcript (world_direct_ok\<lparr>environ := \<lambda>name. None\<rparr>) ''dQw4w9WgXcQ'' [])) =
     ApiGetTranscript ''dQw4w9WgXcQ'' None"
    using t2 [THEN conjunct2, THEN conjunct2, rule_format, OF b] by blast
  moreover have "\<not> list_ex is_proxy_attempt (snd (get_transcript (world_direct_ok\<lparr>environ := \<lambda>name. Some []\<rparr>) ''dQw4w9WgXcQ'' []))"
    using t3 [THEN conjunct1] c by blast
  ultimately show ?thesis
    by simp
qed

section \<open>Claims about the request handlers\<close>

text \<open>
  Claim C8. In the \<^verbatim>\<open>/watch\<close> handler a missing or empty parameter and a parameter that
  the resolver rejects both give status 400; a failure of the fetcher after a successful
  resolution gives status 500, and the error page carries the failure detail.
\<close>

theorem watch_status:
  "(param = None \<or> param = Some [] \<longrightarrow>
      watch w param tr =
        ((ErrorPage ''No video ID provided. Please use /watch?v=VIDEO_ID'', 400), tr)) \<and>
   (\<forall>p. param = Some p \<and> p \<noteq> [] \<and> extract_video_id p = None \<longrightarrow>
      watch w param tr = ((ErrorPage ''Invalid video ID format'', 400), tr)) \<and>
   (\<forall>p vid e tr'. param = Some p \<and> extract_video_id p = Some vid \<and>
        get_transcript w vid tr = (Inl e, tr') \<longrightarrow>
      watch w param tr = ((ErrorPage e, 500), tr'))"
proof (intro conjI allI impI)
  assume "param = None \<or> param = Some []"
  then show "watch w param tr =
        ((ErrorPage ''No video ID provided. Please use /watch?v=VIDEO_ID'', 400), tr)"
    by (auto simp add: watch_def)
next
  fix p
  assume "param = Some p \<and> p \<noteq> [] \<and> extract_video_id p = None"
  then show "watch w param tr = ((ErrorPage ''Invalid video ID format'', 400), tr)"
    by (simp add: watch_def)
next
  fix p vid e tr'
  assume a: "param = Some p \<and> extract_video_id p = Some vid \<and>
        get_transcript w vid tr = (Inl e, tr')"
  then have "p \<noteq> []"
    using extract_video_id_empty by auto
  moreover have "vid \<noteq> []"
    using a extract_video_id_sound [of p vid] by auto
  ultimately show "watch w param tr = ((ErrorPage e, 500), tr')"
    using a by (simp add: watch_def)
qed

text \<open>The empty and the absent parameter, the input of the fourth scenario, and a short
  link whose transcript cannot be fetched.\<close>

theorem watch_status_witness:
  "snd (fst (watch world_all_fail (Some []) [])) = 400 \<and>
   snd (fst (watch world_all_fail None [])) = 400 \<and>
   watch world_all_fail (Some ''not-a-valid-id-or-url'') [] =
     ((ErrorPage ''Invalid video ID format'', 400), []) \<and>
   fst (watch world_all_fail (Some ''https://youtu.be/dQw4w9WgXcQ'') []) =
     (ErrorPage ''No transcript available for video dQw4w9WgXcQ: direct fetch failed'', 500)"
proof -
  have x1: "extract_video_id ''not-a-valid-id-or-url'' = None"
    by code_simp
  have x2: "extract_video_id ''https://youtu.be/dQw4w9WgXcQ'' = Some ''dQw4w9WgXcQ''"
    by code_simp
  have g: "get_transcript world_all_fail ''dQw4w9WgXcQ'' [] =
     (Inl ''No transcript available for video dQw4w9WgXcQ: direct fetch failed'',
      snd (get_transcript world_all_fail ''dQw4w9WgXcQ'' []))"
    by (simp add: get_transcript_def direct_attempt_def world_all_fail_def)
  have "watch world_all_fail (Some []) [] =
        ((ErrorPage ''No video ID provided. Please use /watch?v=VIDEO_ID'', 400), [])"
    using watch_status [of "Some []" world_all_fail "[]", THEN conjunct1] by simp
  moreover have "watch world_all_fail None [] =
        ((ErrorPage ''No video ID provided. Please use /watch?v=VIDEO_ID'', 400), [])"
    using watch_status [of None world_all_fail "[]", THEN conjunct1] by simp
  moreover have "watch world_all_fail (Some ''not-a-valid-id-or-url'') [] =
     ((ErrorPage ''Invalid video ID format'', 400), [])"
    using watch_status [of "Some ''not-a-valid-id-or-url''" world_all_fail "[]",
        THEN conjunct2, THEN conjunct1, rule_format, of "''not-a-valid-id-or-url''"] x1
    by simp
  moreover have "watch world_all_fail (Some ''https://youtu.be/dQw4w9WgXcQ'') [] =
     ((ErrorPage ''No transcript available for video dQw4w9WgXcQ: direct fetch failed'', 500),
      snd (get_transcript world_all_fail ''dQw4w9WgXcQ'' []))"
    using watch_status [of "Some ''https://youtu.be/dQw4w9WgXcQ''" world_all_fail "[]",
        THEN conjunct2, THEN conjunct2, rule_format,
        of "''https://youtu.be/dQw4w9WgXcQ''" "''dQw4w9WgXcQ''"] x2 g
    by simp
  ultimately show ?thesis
    by simp
qed

text \<open>
  Claim C9. The JSON endpoint does not resolve or validate its path string: the calls of
  the dependency carry exactly that string, the status is 200 or 500 and never 400, and
  every failure of the fetcher is answered with \<^verbatim>\<open>success = false\<close>, the detail, and
  status 500.
\<close>

theorem api_transcript_unvalidated:
  "snd (api_transcript w video_id tr) = snd (get_transcript w video_id tr) \<and>
   set (api_video_ids (snd (api_transcript w video_id []))) = {video_id} \<and>
   (snd (fst (api_transcript w video_id tr)) = 200 \<or>
    snd (fst (api_transcript w video_id tr)) = 500) \<and>
   (\<forall>e. fst (get_transcript w video_id tr) = Inl e \<longrightarrow>
      fst (api_transcript w video_id tr) = (JsonFailure e, 500)) \<and>
   (\<forall>t. fst (get_transcript w video_id tr) = Inr t \<longrightarrow>
      fst (api_transcript w video_id tr) =
        (JsonSuccess video_id t (environ w ''YOUTUBE_PROXY''), 200))"
proof -
  have s: "snd (api_transcript w video_id tr) = snd (get_transcript w video_id tr)" for tr
    by (simp add: api_transcript_def split: prod.splits sum.splits)
  have "set (api_video_ids (snd (api_transcript w video_id []))) = {video_id}"
    by (simp only: s get_transcript_video_ids)
  then show ?thesis
    using s by (auto simp add: api_transcript_def split: prod.splits sum.splits)
qed

text \<open>A path string that the resolver would reject reaches the dependency unchanged.\<close>

theorem api_transcript_unvalidated_witness:
  "extract_video_id ''not-a-valid-id-or-url'' = None \<and>
   fst (api_transcript world_all_fail ''not-a-valid-id-or-url'' []) =
     (JsonFailure ''No transcript available for video not-a-valid-id-or-url: direct fetch failed'', 500) \<and>
   set (api_video_ids (snd (api_transcript world_all_fail ''not-a-valid-id-or-url'' []))) =
     {''not-a-valid-id-or-url''}"
proof -
  have x: "extract_video_id ''not-a-valid-id-or-url'' = None"
    by code_simp
  have g: "fst (get_transcript world_all_fail ''not-a-valid-id-or-url'' []) =
     Inl ''No transcript available for video not-a-valid-id-or-url: direct fetch failed''"
    by (simp add: get_transcript_def direct_attempt_def world_all_fail_def)
  note t = api_transcript_unvalidated [of world_all_fail "''not-a-valid-id-or-url''" "[]"]
  have "fst (api_transcript world_all_fail ''not-a-valid-id-or-url'' []) =
     (JsonFailure ''No transcript available for video not-a-valid-id-or-url: direct fetch failed'', 500)"
    using t [THEN conjunct2, THEN conjunct2, THEN conjunct2, THEN conjunct1, rule_format, OF g] .
  then show ?thesis
    using x t [THEN conjunct2, THEN conjunct1] by (intro conjI)
qed

end
